theory Spec2Isabelle
  imports Main "HOL-Library.Word"
begin

unbundle bit_operations_syntax

section \<open>Elastic hash table: data model\<close>

text \<open>
  A shallow embedding of \<^verbatim>\<open>elastic_hash_table.c\<close>.

  \<^item> \<^verbatim>\<open>uint64_t\<close> hash values are 64-bit words, so that \<open>+\<close>, \<open>*\<close> wrap as in C.
  \<^item> \<^verbatim>\<open>size_t\<close> quantities (capacities, counters, indices) are natural numbers. Every
    slot of a level is allocated, so none of them comes near \<open>2 ^ 64\<close>; a decrement
    is written with its wrap-around at zero (\<open>size_dec\<close>).
  \<^item> A heap buffer is the list of its bytes, a pointer field is an option (\<open>None\<close> is
    \<^verbatim>\<open>NULL\<close>). A key argument is the bytes found at the pointer; the C string is the
    part before the first NUL byte (\<open>cstr\<close>).
  \<^item> \<^verbatim>\<open>malloc\<close> and \<^verbatim>\<open>calloc\<close> are taken to succeed. The value \<open>None\<close> of an
    operation means that it does not return 0.
  \<^item> The three \<^verbatim>\<open>double\<close> computations of the program (the probe budget and the two
    rebuild thresholds) are parameters, gathered in the record \<open>fenv\<close>: the model
    assumes nothing about floating-point rounding or about \<^verbatim>\<open>log\<close>. A theorem that
    needs a property of the budget states it as a hypothesis (\<open>budget_mono\<close>,
    \<open>budget_pos\<close>).
\<close>

type_synonym byte = "8 word"
type_synonym bytes = "byte list"

datatype SlotState = SLOT_EMPTY | SLOT_OCCUPIED | SLOT_TOMBSTONE

record Slot =
  key :: "bytes option"
  val :: "bytes option"
  value_len :: nat
  state :: SlotState

record SubArray =
  level :: int
  capacity :: nat
  count :: nat
  tombstones :: nat
  slots :: "Slot list"

text \<open>
  The table. The fields \<^verbatim>\<open>max_load\<close> and \<^verbatim>\<open>tombstone_ratio\<close> are doubles that are
  written once by \<^verbatim>\<open>eht_create\<close> and only read in the two threshold computations;
  they live in \<open>fenv\<close>. The table's own \<^verbatim>\<open>count\<close> is the field \<open>tcount\<close>.
\<close>

record ElasticHashTable =
  total_capacity :: nat
  tcount :: nat
  num_levels :: nat
  min_level_size :: nat
  levels :: "SubArray list"

record FindResult =
  level_idx :: int
  slot_idx :: nat

record fenv =
  budget_of :: "nat \<Rightarrow> nat \<Rightarrow> nat option"
  load_limit :: "nat \<Rightarrow> nat"
  tomb_limit :: "nat \<Rightarrow> nat"

text \<open>
  \<open>budget_of env used capacity\<close> is \<open>None\<close> when the test \<^verbatim>\<open>eps <= 0.0\<close> of
  \<^verbatim>\<open>probe_budget\<close> succeeds and \<open>Some b\<close> with \<^verbatim>\<open>b = (size_t)budget + 1\<close> otherwise;
  \<open>load_limit env c\<close> is \<^verbatim>\<open>(size_t)(c * t->max_load)\<close> and \<open>tomb_limit env c\<close> is
  \<^verbatim>\<open>(size_t)(c * t->tombstone_ratio)\<close>.
\<close>

definition size_dec :: "nat \<Rightarrow> nat" where
  "size_dec n = (if n = 0 then 2 ^ 64 - 1 else n - 1)"

definition cstr :: "bytes \<Rightarrow> bytes" where
  "cstr p = takeWhile (\<lambda>b. b \<noteq> 0) p"

section \<open>Hashing\<close>

fun fnv1a_loop :: "bytes \<Rightarrow> 64 word \<Rightarrow> 64 word" where
  "fnv1a_loop [] h = h"
| "fnv1a_loop (p # ps) h =
     (if p = 0 then h else fnv1a_loop ps ((h XOR ucast p) * 0x100000001b3))"

definition fnv1a_salted :: "bytes \<Rightarrow> 64 word \<Rightarrow> 64 word" where
  "fnv1a_salted k salt = fnv1a_loop k (0xcbf29ce484222325 XOR salt)"

definition dual_hash :: "bytes \<Rightarrow> int \<Rightarrow> 64 word \<times> 64 word" where
  "dual_hash k lv =
     (let salt1 = word_of_int lv * 0x9E3779B97F4A7C15 + 0xA1;
          salt2 = word_of_int lv * 0x517CC1B727220A95 + 0xB2
      in (fnv1a_salted k salt1, fnv1a_salted k salt2 OR 1))"

definition probe_idx :: "64 word \<Rightarrow> 64 word \<Rightarrow> nat \<Rightarrow> nat \<Rightarrow> nat" where
  "probe_idx h1 h2 attempt cap = unat (h1 + word_of_nat attempt * h2) mod cap"

text \<open>The hash as the specification words it: a left fold over the bytes before the first NUL.\<close>

definition fnv1a_spec :: "bytes \<Rightarrow> 64 word \<Rightarrow> 64 word" where
  "fnv1a_spec bs salt =
     foldl (\<lambda>h b. (h XOR ucast b) * 0x100000001b3) (0xcbf29ce484222325 XOR salt) bs"

section \<open>Probe budget\<close>

definition probe_budget :: "fenv \<Rightarrow> SubArray \<Rightarrow> nat" where
  "probe_budget env sub =
     (case budget_of env (count sub + tombstones sub) (capacity sub) of
        None \<Rightarrow> capacity sub
      | Some b \<Rightarrow> if b < capacity sub then b else capacity sub)"

section \<open>Level construction\<close>

definition empty_slot :: Slot where
  "empty_slot = \<lparr>key = None, val = None, value_len = 0, state = SLOT_EMPTY\<rparr>"

definition subarray_init :: "int \<Rightarrow> nat \<Rightarrow> SubArray" where
  "subarray_init lv cap =
     \<lparr>level = lv, capacity = cap, count = 0, tombstones = 0,
      slots = replicate cap empty_slot\<rparr>"

text \<open>The counting loop of \<^verbatim>\<open>build_levels\<close>; it does not end when \<open>mls = 0\<close> and \<open>tmp = 1\<close>.\<close>

partial_function (option) count_levels :: "nat \<Rightarrow> nat \<Rightarrow> nat \<Rightarrow> nat option" where
  "count_levels mls tmp n =
     (if tmp > mls * 2 then count_levels mls (tmp - tmp div 2) (n + 1) else Some n)"

declare count_levels.simps [code]

text \<open>The loop \<^verbatim>\<open>for (i = 0; i < n_levels - 1; ++i)\<close>, from index \<open>i\<close> on.\<close>

function init_levels :: "nat \<Rightarrow> nat \<Rightarrow> nat \<Rightarrow> SubArray list \<Rightarrow> SubArray list \<times> nat" where
  "init_levels i n remaining acc =
     (if i < n
      then init_levels (i + 1) n (remaining - remaining div 2)
             (acc @ [subarray_init (int i) (remaining div 2)])
      else (acc, remaining))"
  by pat_completeness auto
termination
  by (relation "measure (\<lambda>(i, n, remaining, acc). n - i)") auto

definition build_levels :: "ElasticHashTable \<Rightarrow> nat \<Rightarrow> ElasticHashTable option" where
  "build_levels t cap =
     (case count_levels (min_level_size t) cap 0 of
        None \<Rightarrow> None
      | Some n \<Rightarrow>
          (let n_levels = n + 1;
               (lv, remaining) = init_levels 0 (n_levels - 1) cap []
           in Some (t\<lparr>num_levels := n_levels,
                      levels := lv @ [subarray_init (int (n_levels - 1)) remaining]\<rparr>)))"

definition eht_create :: "nat \<Rightarrow> ElasticHashTable option" where
  "eht_create requested =
     (let total = (if requested < 64 then 64 else requested)
      in build_levels
           \<lparr>total_capacity = total, tcount = 0, num_levels = 0,
            min_level_size = 16, levels = []\<rparr> total)"

text \<open>The layout as the specification words it: the list of the emitted capacities.\<close>

partial_function (option) layout_spec :: "nat \<Rightarrow> nat \<Rightarrow> nat list option" where
  "layout_spec mls remaining =
     (if remaining > 2 * mls
      then Option.bind (layout_spec mls (remaining - remaining div 2))
             (\<lambda>rest. Some (remaining div 2 # rest))
      else Some [remaining])"

declare layout_spec.simps [code]

section \<open>Find\<close>

text \<open>\<^verbatim>\<open>strcmp(s->key, key) == 0\<close>; the key of an occupied slot is never \<^verbatim>\<open>NULL\<close>.\<close>

definition key_matches :: "Slot \<Rightarrow> bytes \<Rightarrow> bool" where
  "key_matches s k = (case key s of None \<Rightarrow> False | Some sk \<Rightarrow> cstr sk = cstr k)"

text \<open>
  The inner loop of \<^verbatim>\<open>find_key\<close> from attempt \<open>a\<close> on: \<open>Some idx\<close> is the
  \<^verbatim>\<open>return r\<close>, \<open>None\<close> is leaving the loop by \<^verbatim>\<open>break\<close> or by the budget.
\<close>

function find_probe ::
  "SubArray \<Rightarrow> bytes \<Rightarrow> 64 word \<Rightarrow> 64 word \<Rightarrow> nat \<Rightarrow> nat \<Rightarrow> nat option" where
  "find_probe sub k h1 h2 budget a =
     (if a < budget
      then (let idx = probe_idx h1 h2 a (capacity sub);
                s = slots sub ! idx
            in if state s = SLOT_OCCUPIED \<and> key_matches s k then Some idx
               else if state s = SLOT_EMPTY then None
               else find_probe sub k h1 h2 budget (a + 1))
      else None)"
  by pat_completeness auto
termination
  by (relation "measure (\<lambda>(sub, k, h1, h2, budget, a). budget - a)") auto

text \<open>The outer loop of \<^verbatim>\<open>find_key\<close> from level \<open>li\<close> on.\<close>

function find_levels :: "fenv \<Rightarrow> ElasticHashTable \<Rightarrow> bytes \<Rightarrow> nat \<Rightarrow> FindResult" where
  "find_levels env t k li =
     (if li < num_levels t
      then (let sub = levels t ! li
            in if count sub = 0 then find_levels env t k (li + 1)
               else (let budget = probe_budget env sub;
                         (h1, h2) = dual_hash k (level sub)
                     in case find_probe sub k h1 h2 budget 0 of
                          Some idx \<Rightarrow> \<lparr>level_idx = int li, slot_idx = idx\<rparr>
                        | None \<Rightarrow> find_levels env t k (li + 1)))
      else \<lparr>level_idx = - 1, slot_idx = 0\<rparr>)"
  by pat_completeness auto
termination
  by (relation "measure (\<lambda>(env, t, k, li). num_levels t - li)") auto

definition find_key :: "fenv \<Rightarrow> ElasticHashTable \<Rightarrow> bytes \<Rightarrow> FindResult" where
  "find_key env t k = find_levels env t k 0"

section \<open>Insertion with ownership transfer, and rebuild\<close>

text \<open>The inner loop of \<^verbatim>\<open>insert_owned\<close>: the index of the first claimable slot.\<close>

function insert_probe :: "SubArray \<Rightarrow> 64 word \<Rightarrow> 64 word \<Rightarrow> nat \<Rightarrow> nat \<Rightarrow> nat option" where
  "insert_probe sub h1 h2 budget a =
     (if a < budget
      then (let idx = probe_idx h1 h2 a (capacity sub);
                s = slots sub ! idx
            in if state s = SLOT_EMPTY \<or> state s = SLOT_TOMBSTONE then Some idx
               else insert_probe sub h1 h2 budget (a + 1))
      else None)"
  by pat_completeness auto
termination
  by (relation "measure (\<lambda>(sub, h1, h2, budget, a). budget - a)") auto

text \<open>The body of \<^verbatim>\<open>if (s->state == SLOT_EMPTY || s->state == SLOT_TOMBSTONE)\<close>.\<close>

definition claim_slot ::
  "SubArray \<Rightarrow> nat \<Rightarrow> bytes option \<Rightarrow> bytes option \<Rightarrow> nat \<Rightarrow> SubArray" where
  "claim_slot sub idx k v vlen =
     (let s = slots sub ! idx;
          sub1 = (if state s = SLOT_TOMBSTONE
                  then sub\<lparr>tombstones := size_dec (tombstones sub)\<rparr> else sub)
      in sub1\<lparr>slots := (slots sub1)
                 [idx := \<lparr>key = k, val = v, value_len = vlen, state = SLOT_OCCUPIED\<rparr>],
               count := count sub1 + 1\<rparr>)"

text \<open>
  The outer loop of \<^verbatim>\<open>insert_owned\<close> from level \<open>li\<close> on; \<open>None\<close>: all levels
  exhausted. The key pointer is dereferenced by \<^verbatim>\<open>dual_hash\<close> (\<open>the k\<close>); the callers pass
  the copy made by \<^verbatim>\<open>eht_insert\<close> or a key stolen from an occupied slot.
\<close>

function insert_levels ::
  "fenv \<Rightarrow> ElasticHashTable \<Rightarrow> bytes option \<Rightarrow> bytes option \<Rightarrow> nat \<Rightarrow> nat
     \<Rightarrow> ElasticHashTable option" where
  "insert_levels env t k v vlen li =
     (if li < num_levels t
      then (let sub = levels t ! li;
                budget = probe_budget env sub;
                (h1, h2) = dual_hash (the k) (level sub)
            in case insert_probe sub h1 h2 budget 0 of
                 Some idx \<Rightarrow>
                   Some (t\<lparr>levels := (levels t)[li := claim_slot sub idx k v vlen],
                           tcount := tcount t + 1\<rparr>)
               | None \<Rightarrow> insert_levels env t k v vlen (li + 1))
      else None)"
  by pat_completeness auto
termination
  by (relation "measure (\<lambda>(env, t, k, v, vlen, li). num_levels t - li)") auto

type_synonym entry = "bytes option \<times> bytes option \<times> nat"

text \<open>Step 1 of \<^verbatim>\<open>rebuild\<close>: the stolen (key, value, length) triples, in scan order.\<close>

definition level_entries :: "SubArray \<Rightarrow> entry list" where
  "level_entries sub =
     map (\<lambda>s. (key s, val s, value_len s))
       (filter (\<lambda>s. state s = SLOT_OCCUPIED) (take (capacity sub) (slots sub)))"

definition collect :: "ElasticHashTable \<Rightarrow> entry list" where
  "collect t = concat (map level_entries (take (num_levels t) (levels t)))"

text \<open>
  \<^verbatim>\<open>insert_owned\<close> and \<^verbatim>\<open>rebuild\<close> call each other. The number of nested rebuilds is
  bounded by \<open>fuel\<close>; \<open>rebuild_with ins\<close> is the body of \<^verbatim>\<open>rebuild\<close> with the
  insertion it calls in step 4, \<open>reinsert\<close> is the loop of step 4. The source drops the
  result of \<^verbatim>\<open>insert_owned\<close> in that loop; with allocation succeeding the call returns 0
  or does not return, and a call that does not return within the fuel makes the rebuild
  \<open>None\<close>.
\<close>

fun reinsert ::
  "(ElasticHashTable \<Rightarrow> entry \<Rightarrow> ElasticHashTable option)
     \<Rightarrow> ElasticHashTable \<Rightarrow> entry list \<Rightarrow> ElasticHashTable option" where
  "reinsert ins t [] = Some t"
| "reinsert ins t (e # es) =
     (case ins t e of None \<Rightarrow> None | Some t' \<Rightarrow> reinsert ins t' es)"

definition rebuild_with ::
  "(ElasticHashTable \<Rightarrow> entry \<Rightarrow> ElasticHashTable option)
     \<Rightarrow> ElasticHashTable \<Rightarrow> nat \<Rightarrow> ElasticHashTable option" where
  "rebuild_with ins t new_capacity =
     (let es = collect t;
          t1 = t\<lparr>levels := [], num_levels := 0, tcount := 0,
                 total_capacity := new_capacity\<rparr>
      in case build_levels t1 new_capacity of
           None \<Rightarrow> None
         | Some t2 \<Rightarrow> reinsert ins t2 es)"

fun insert_owned :: "fenv \<Rightarrow> nat \<Rightarrow> ElasticHashTable \<Rightarrow> entry \<Rightarrow> ElasticHashTable option" where
  "insert_owned env 0 t (k, v, vlen) = insert_levels env t k v vlen 0"
| "insert_owned env (Suc fuel) t (k, v, vlen) =
     (case insert_levels env t k v vlen 0 of
        Some t' \<Rightarrow> Some t'
      | None \<Rightarrow>
          (case rebuild_with (insert_owned env fuel) t (total_capacity t * 2) of
             None \<Rightarrow> None
           | Some t' \<Rightarrow> insert_owned env fuel t' (k, v, vlen)))"

definition rebuild :: "fenv \<Rightarrow> nat \<Rightarrow> ElasticHashTable \<Rightarrow> nat \<Rightarrow> ElasticHashTable option" where
  "rebuild env fuel t new_capacity = rebuild_with (insert_owned env fuel) t new_capacity"

section \<open>Public operations\<close>

definition slot_at :: "ElasticHashTable \<Rightarrow> FindResult \<Rightarrow> Slot" where
  "slot_at t fr = slots (levels t ! nat (level_idx fr)) ! slot_idx fr"

definition set_slot :: "ElasticHashTable \<Rightarrow> nat \<Rightarrow> nat \<Rightarrow> Slot \<Rightarrow> ElasticHashTable" where
  "set_slot t li idx s =
     t\<lparr>levels := (levels t)[li := (levels t ! li)\<lparr>slots := (slots (levels t ! li))[idx := s]\<rparr>]\<rparr>"

definition total_ts :: "ElasticHashTable \<Rightarrow> nat" where
  "total_ts t = sum_list (map tombstones (take (num_levels t) (levels t)))"

definition eht_insert ::
  "fenv \<Rightarrow> nat \<Rightarrow> ElasticHashTable \<Rightarrow> bytes \<Rightarrow> bytes \<Rightarrow> ElasticHashTable option" where
  "eht_insert env fuel t k v =
     (let fr = find_key env t k
      in if level_idx fr \<ge> 0
         then Some (set_slot t (nat (level_idx fr)) (slot_idx fr)
                      ((slot_at t fr)\<lparr>val := Some v, value_len := length v\<rparr>))
         else
           (case (if tcount t \<ge> load_limit env (total_capacity t)
                  then rebuild env fuel t (total_capacity t * 2) else Some t) of
              None \<Rightarrow> None
            | Some t1 \<Rightarrow>
                (case (if total_ts t1 \<ge> tomb_limit env (total_capacity t1)
                       then rebuild env fuel t1 (total_capacity t1) else Some t1) of
                   None \<Rightarrow> None
                 | Some t2 \<Rightarrow> insert_owned env fuel t2 (Some (cstr k), Some v, length v))))"

definition eht_get :: "fenv \<Rightarrow> ElasticHashTable \<Rightarrow> bytes \<Rightarrow> (bytes option \<times> nat) option" where
  "eht_get env t k =
     (let fr = find_key env t k
      in if level_idx fr < 0 then None
         else Some (val (slot_at t fr), value_len (slot_at t fr)))"

definition slot_free_data :: "Slot \<Rightarrow> Slot" where
  "slot_free_data s = s\<lparr>key := None, val := None, value_len := 0\<rparr>"

definition eht_delete :: "fenv \<Rightarrow> ElasticHashTable \<Rightarrow> bytes \<Rightarrow> int \<times> ElasticHashTable" where
  "eht_delete env t k =
     (let fr = find_key env t k
      in if level_idx fr < 0 then (0, t)
         else
           (let li = nat (level_idx fr);
                sub = levels t ! li;
                s = (slot_free_data (slots sub ! slot_idx fr))\<lparr>state := SLOT_TOMBSTONE\<rparr>;
                sub' = sub\<lparr>slots := (slots sub)[slot_idx fr := s],
                           count := size_dec (count sub),
                           tombstones := tombstones sub + 1\<rparr>
            in (1, t\<lparr>levels := (levels t)[li := sub'], tcount := size_dec (tcount t)\<rparr>)))"

definition eht_contains :: "fenv \<Rightarrow> ElasticHashTable \<Rightarrow> bytes \<Rightarrow> int" where
  "eht_contains env t k = (if level_idx (find_key env t k) \<ge> 0 then 1 else 0)"

definition eht_len :: "ElasticHashTable \<Rightarrow> nat" where
  "eht_len t = tcount t"

definition eht_capacity :: "ElasticHashTable \<Rightarrow> nat" where
  "eht_capacity t = total_capacity t"

definition eht_num_levels :: "ElasticHashTable \<Rightarrow> nat" where
  "eht_num_levels t = num_levels t"

section \<open>Specification-level notions\<close>

text \<open>
  The budget of a level with \<open>used\<close> non-empty slots out of \<open>cap\<close>: the whole level when
  the vacancy is not positive, the value of the formula clamped by the capacity otherwise.
\<close>

definition clamped_budget :: "fenv \<Rightarrow> nat \<Rightarrow> nat \<Rightarrow> nat" where
  "clamped_budget env used cap =
     (case budget_of env used cap of None \<Rightarrow> cap | Some b \<Rightarrow> if b < cap then b else cap)"

text \<open>
  Find as the specification words it, written without the functions of the program.

  The two hashes of a key at a level are the values of the salted FNV-1a folds over the
  bytes before the first NUL. The slot probed at attempt \<open>a\<close> is
  \<open>(h1 + a * h2) mod capacity\<close>; \<open>h1\<close> and \<open>h2\<close> are 64-bit quantities and the sum is
  taken in 64-bit arithmetic like the hashes themselves, which is written out here on
  natural numbers.
\<close>

definition hash_pair_spec :: "bytes \<Rightarrow> int \<Rightarrow> nat \<times> nat" where
  "hash_pair_spec k lv =
     (unat (fnv1a_spec (cstr k) (word_of_int lv * 0x9E3779B97F4A7C15 + 0xA1)),
      unat (fnv1a_spec (cstr k) (word_of_int lv * 0x517CC1B727220A95 + 0xB2) OR 1))"

definition probe_index_spec :: "nat \<Rightarrow> nat \<Rightarrow> nat \<Rightarrow> nat \<Rightarrow> nat" where
  "probe_index_spec h1 h2 a cap = ((h1 + a * h2) mod 2 ^ 64) mod cap"

text \<open>
  The slots that a search for \<open>k\<close> probes in one level: attempts \<open>0\<close> up to the budget
  of the level, which has \<open>count + tombstones\<close> non-empty slots.
\<close>

definition probe_seq_spec :: "fenv \<Rightarrow> SubArray \<Rightarrow> bytes \<Rightarrow> nat list" where
  "probe_seq_spec env sub k =
     map (\<lambda>a. probe_index_spec (fst (hash_pair_spec k (level sub)))
                (snd (hash_pair_spec k (level sub))) a (capacity sub))
       [0..<clamped_budget env (count sub + tombstones sub) (capacity sub)]"

text \<open>The key of a slot equals the query, byte for byte up to the terminating NUL.\<close>

definition key_equal_spec :: "Slot \<Rightarrow> bytes \<Rightarrow> bool" where
  "key_equal_spec s k = (map_option cstr (key s) = Some (cstr k))"

text \<open>
  Within a level: walk the probe sequence, return the first occupied slot with an equal
  key, give the level up at an empty slot, continue past tombstones and other keys, give
  the level up when the sequence is exhausted.
\<close>

fun scan_spec :: "Slot list \<Rightarrow> bytes \<Rightarrow> nat list \<Rightarrow> nat option" where
  "scan_spec ss k [] = None"
| "scan_spec ss k (idx # rest) =
     (if state (ss ! idx) = SLOT_OCCUPIED \<and> key_equal_spec (ss ! idx) k then Some idx
      else if state (ss ! idx) = SLOT_EMPTY then None
      else scan_spec ss k rest)"

text \<open>
  Across levels: the levels in index order, the first level that yields a match, and the
  sentinel \<open>(-1, 0)\<close> when none does.
\<close>

fun first_level_spec :: "fenv \<Rightarrow> bytes \<Rightarrow> (nat \<times> SubArray) list \<Rightarrow> FindResult" where
  "first_level_spec env k [] = \<lparr>level_idx = - 1, slot_idx = 0\<rparr>"
| "first_level_spec env k ((li, sub) # rest) =
     (case scan_spec (slots sub) k (probe_seq_spec env sub k) of
        Some idx \<Rightarrow> \<lparr>level_idx = int li, slot_idx = idx\<rparr>
      | None \<Rightarrow> first_level_spec env k rest)"

definition find_spec :: "fenv \<Rightarrow> ElasticHashTable \<Rightarrow> bytes \<Rightarrow> FindResult" where
  "find_spec env t k =
     first_level_spec env k (zip [0..<num_levels t] (take (num_levels t) (levels t)))"

text \<open>The levels that \<^verbatim>\<open>build_levels\<close> allocates for a list of capacities.\<close>

definition init_list :: "nat \<Rightarrow> nat list \<Rightarrow> SubArray list" where
  "init_list i caps = map (\<lambda>(j, c). subarray_init (int j) c) (zip [i..<i + length caps] caps)"

text \<open>
  The one property of the floating-point computation that the table relies on: filling
  one more slot of a level never lowers its budget.
\<close>

definition budget_mono :: "fenv \<Rightarrow> bool" where
  "budget_mono env =
     (\<forall>used cap. used < cap \<longrightarrow> clamped_budget env used cap \<le> clamped_budget env (Suc used) cap)"

text \<open>
  A second property of the budget, used only to show that insertion returns: a level with
  at least one slot is probed at least once. (In the source \<^verbatim>\<open>b = (size_t)budget + 1\<close> is
  at least 1.)
\<close>

definition budget_pos :: "fenv \<Rightarrow> bool" where
  "budget_pos env = (\<forall>used cap. 0 < cap \<longrightarrow> 0 < clamped_budget env used cap)"

subsection \<open>Invariants\<close>

definition is_occupied :: "Slot \<Rightarrow> bool" where
  "is_occupied s = (state s = SLOT_OCCUPIED)"

definition slot_entries :: "Slot list \<Rightarrow> entry list" where
  "slot_entries ss = map (\<lambda>s. (key s, val s, value_len s)) (filter is_occupied ss)"

text \<open>An entry as \<^verbatim>\<open>eht_insert\<close> stores it: a NUL-free key, a value with its length.\<close>

definition entry_ok :: "entry \<Rightarrow> bool" where
  "entry_ok e =
     (case e of
        (Some k, Some v, n) \<Rightarrow> cstr k = k \<and> n = length v
      | _ \<Rightarrow> False)"

text \<open>
  An occupied slot \<open>i\<close> is on the probe chain of its own key: some attempt within the
  budget reaches it, and no earlier attempt meets an empty slot.
\<close>

definition chain_ok :: "fenv \<Rightarrow> SubArray \<Rightarrow> nat \<Rightarrow> bool" where
  "chain_ok env sub i =
     (let k = the (key (slots sub ! i));
          h1 = fst (dual_hash k (level sub));
          h2 = snd (dual_hash k (level sub))
      in \<exists>a < probe_budget env sub.
           probe_idx h1 h2 a (capacity sub) = i \<and>
           (\<forall>a' < a. state (slots sub ! probe_idx h1 h2 a' (capacity sub)) \<noteq> SLOT_EMPTY))"

text \<open>The bookkeeping of a level: the slot array and the two counters agree.\<close>

definition level_basic :: "SubArray \<Rightarrow> bool" where
  "level_basic sub =
     (length (slots sub) = capacity sub \<and>
      count sub = length (filter is_occupied (slots sub)) \<and>
      tombstones sub = length (filter (\<lambda>s. state s = SLOT_TOMBSTONE) (slots sub)))"

definition level_ok :: "fenv \<Rightarrow> SubArray \<Rightarrow> bool" where
  "level_ok env sub =
     (length (slots sub) = capacity sub \<and>
      count sub = length (filter is_occupied (slots sub)) \<and>
      tombstones sub = length (filter (\<lambda>s. state s = SLOT_TOMBSTONE) (slots sub)) \<and>
      (\<forall>i < capacity sub. is_occupied (slots sub ! i) \<longrightarrow>
         entry_ok (key (slots sub ! i), val (slots sub ! i), value_len (slots sub ! i)) \<and>
         chain_ok env sub i))"

definition table_inv :: "fenv \<Rightarrow> ElasticHashTable \<Rightarrow> bool" where
  "table_inv env t =
     (num_levels t = length (levels t) \<and>
      0 < min_level_size t \<and>
      0 < total_capacity t \<and>
      layout_spec (min_level_size t) (total_capacity t) = Some (map capacity (levels t)) \<and>
      (\<forall>sub \<in> set (levels t). level_ok env sub) \<and>
      tcount t = sum_list (map count (levels t)) \<and>
      distinct (map fst (collect t)))"

text \<open>
  The part of the invariant that does not depend on the probe budget: the shape of the
  table, its layout and its counters.
\<close>

definition basic_inv :: "ElasticHashTable \<Rightarrow> bool" where
  "basic_inv t =
     (num_levels t = length (levels t) \<and>
      0 < min_level_size t \<and>
      0 < total_capacity t \<and>
      layout_spec (min_level_size t) (total_capacity t) = Some (map capacity (levels t)) \<and>
      (\<forall>sub \<in> set (levels t). level_basic sub) \<and>
      tcount t = sum_list (map count (levels t)))"

text \<open>
  The states of a table that a client can produce: \<^verbatim>\<open>eht_create\<close>, then any sequence of
  \<^verbatim>\<open>eht_insert\<close> and \<^verbatim>\<open>eht_delete\<close> (\<^verbatim>\<open>eht_get\<close> and \<^verbatim>\<open>eht_contains\<close> leave the
  table as it is), and the two rebuilds that \<^verbatim>\<open>eht_insert\<close> performs.
\<close>

inductive reachable :: "fenv \<Rightarrow> ElasticHashTable \<Rightarrow> bool" for env :: fenv where
  r_create: "eht_create c = Some t \<Longrightarrow> reachable env t"
| r_insert: "reachable env t \<Longrightarrow> eht_insert env fuel t k v = Some t' \<Longrightarrow> reachable env t'"
| r_delete: "reachable env t \<Longrightarrow> eht_delete env t k = (r, t') \<Longrightarrow> reachable env t'"
| r_grow: "reachable env t \<Longrightarrow> rebuild env fuel t (total_capacity t * 2) = Some t'
             \<Longrightarrow> reachable env t'"
| r_compact: "reachable env t \<Longrightarrow> rebuild env fuel t (total_capacity t) = Some t'
             \<Longrightarrow> reachable env t'"

text \<open>The key-value map that a table stands for.\<close>

definition contents :: "ElasticHashTable \<Rightarrow> bytes \<Rightarrow> (bytes option \<times> nat) option" where
  "contents t k = map_of (collect t) (Some (cstr k))"

text \<open>
  What the proofs ask of the insertion that \<open>rebuild_with\<close> calls: on a table that
  satisfies the invariant and does not hold the key, it adds exactly the entry and does
  not shrink the table.
\<close>

definition ins_basic :: "(ElasticHashTable \<Rightarrow> entry \<Rightarrow> ElasticHashTable option) \<Rightarrow> bool" where
  "ins_basic ins =
     (\<forall>t e t'. basic_inv t \<longrightarrow> ins t e = Some t' \<longrightarrow>
        basic_inv t' \<and> total_capacity t \<le> total_capacity t' \<and>
        min_level_size t' = min_level_size t)"

definition ins_correct ::
  "fenv \<Rightarrow> (ElasticHashTable \<Rightarrow> entry \<Rightarrow> ElasticHashTable option) \<Rightarrow> bool" where
  "ins_correct env ins =
     (\<forall>t e t'. table_inv env t \<longrightarrow> entry_ok e \<longrightarrow> fst e \<notin> fst ` set (collect t) \<longrightarrow>
        ins t e = Some t' \<longrightarrow>
        table_inv env t' \<and> set (collect t') = insert e (set (collect t)) \<and>
        total_capacity t \<le> total_capacity t' \<and> min_level_size t' = min_level_size t)"

text \<open>
  What the termination proof asks of the insertion that \<open>reinsert\<close> calls. A table
  whose capacity exceeds \<open>min_level_size * 2 ^ n\<close> has more than \<open>n\<close> levels, and
  \<open>j\<close> doublings lead there; on a table with fewer than \<open>n\<close> entries that is within
  \<open>j\<close> doublings, the insertion returns, adds one to the count and does not shrink the
  table.
\<close>

definition ins_total ::
  "nat \<Rightarrow> nat \<Rightarrow> (ElasticHashTable \<Rightarrow> entry \<Rightarrow> ElasticHashTable option) \<Rightarrow> bool" where
  "ins_total n j ins =
     (\<forall>t e. basic_inv t \<longrightarrow> tcount t < n \<longrightarrow>
        min_level_size t * 2 ^ n < total_capacity t * 2 ^ j \<longrightarrow>
        (\<exists>t'. ins t e = Some t' \<and> basic_inv t' \<and> tcount t' = tcount t + 1 \<and>
              total_capacity t \<le> total_capacity t' \<and>
              min_level_size t' = min_level_size t))"

text \<open>Some occupied slot of the table holds the key.\<close>

definition holds_key :: "ElasticHashTable \<Rightarrow> bytes \<Rightarrow> bool" where
  "holds_key t k =
     (\<exists>li < num_levels t. \<exists>idx < capacity (levels t ! li).
        is_occupied (slots (levels t ! li) ! idx) \<and> key_matches (slots (levels t ! li) ! idx) k)"

text \<open>
  The effect of a deletion as the specification words it: the slot loses key and value
  and becomes a tombstone, the level's count goes down by one and its tombstones up by
  one, the table's count goes down by one.
\<close>

definition delete_at :: "ElasticHashTable \<Rightarrow> nat \<Rightarrow> nat \<Rightarrow> ElasticHashTable" where
  "delete_at t li idx =
     t\<lparr>levels := (levels t)
          [li := (levels t ! li)
             \<lparr>slots := (slots (levels t ! li))
                [idx := \<lparr>key = None, val = None, value_len = 0, state = SLOT_TOMBSTONE\<rparr>],
              count := count (levels t ! li) - 1,
              tombstones := tombstones (levels t ! li) + 1\<rparr>],
       tcount := tcount t - 1\<rparr>"

subsection \<open>Sample inputs\<close>

text \<open>
  A sample arithmetic: the thresholds are \<open>\<lfloor>0.9 c\<rfloor>\<close> and \<open>\<lfloor>0.15 c\<rfloor>\<close>, and the budget
  is that of a level less than two fifths full, where \<open>3 + 3 ln(1/\<epsilon>)\<^sup>2 < 4\<close>. The
  variant \<open>env1\<close> has the load threshold of a table created with \<open>max_load = 1/64\<close>.
\<close>

definition env0 :: fenv where
  "env0 = \<lparr>budget_of = (\<lambda>used cap. if cap \<le> used then None else Some 4),
           load_limit = (\<lambda>c. c * 9 div 10), tomb_limit = (\<lambda>c. c * 3 div 20)\<rparr>"

definition env1 :: fenv where
  "env1 = env0\<lparr>load_limit := (\<lambda>c. c div 64)\<rparr>"

definition key_k :: bytes where
  "key_k = [0x6b]"

definition key_j :: bytes where
  "key_j = [0x6a]"

text \<open>The table of \<^verbatim>\<open>eht_create(64)\<close>, and that table after \<^verbatim>\<open>eht_insert(t, "k", "\001\002\003", 3)\<close>.\<close>

definition tbl0 :: ElasticHashTable where
  "tbl0 = \<lparr>total_capacity = 64, tcount = 0, num_levels = 2, min_level_size = 16,
           levels = init_list 0 [32, 32]\<rparr>"

definition tbl1 :: ElasticHashTable where
  "tbl1 = tbl0\<lparr>levels := (levels tbl0)
                  [0 := claim_slot (levels tbl0 ! 0) 29 (Some key_k) (Some [1, 2, 3]) 3],
               tcount := 1\<rparr>"

text \<open>The table of \<^verbatim>\<open>eht_create(65)\<close>.\<close>

definition tbl65 :: ElasticHashTable where
  "tbl65 = \<lparr>total_capacity = 65, tcount = 0, num_levels = 3, min_level_size = 16,
            levels = init_list 0 [32, 16, 17]\<rparr>"

text \<open>
  \<open>tbl1\<close> after \<^verbatim>\<open>eht_insert(t, "k", "\007", 1)\<close> and then \<^verbatim>\<open>eht_insert(t, "k", "\010", 1)\<close>,
  and \<open>tbl1\<close> after \<^verbatim>\<open>eht_insert(t, "j", "\004\005", 2)\<close>.
\<close>

definition tbl1a :: ElasticHashTable where
  "tbl1a = set_slot tbl1 0 29
             \<lparr>key = Some key_k, val = Some [7], value_len = 1, state = SLOT_OCCUPIED\<rparr>"

definition tbl1b :: ElasticHashTable where
  "tbl1b = set_slot tbl1a 0 29
             \<lparr>key = Some key_k, val = Some [8], value_len = 1, state = SLOT_OCCUPIED\<rparr>"

definition tbl2 :: ElasticHashTable where
  "tbl2 = tbl1\<lparr>levels := (levels tbl1)
                  [0 := claim_slot (levels tbl1 ! 0) 10 (Some key_j) (Some [4, 5]) 2],
               tcount := 2\<rparr>"

text \<open>
  Tables for the search. The key \<^verbatim>\<open>"J"\<close> has the probe sequence of \<^verbatim>\<open>"j"\<close> in a level of 32
  slots: 10, 17, 24, 31. \<open>tbl_J\<close> is the table of \<^verbatim>\<open>eht_create(64)\<close> after
  \<^verbatim>\<open>eht_insert(t, "J", "\011", 1)\<close>, \<open>tbl_other\<close> is that table after
  \<^verbatim>\<open>eht_insert(t, "j", "\004\005", 2)\<close>, and \<open>tbl_tomb\<close> is the latter after
  \<^verbatim>\<open>eht_delete(t, "J")\<close>.
\<close>

definition key_J :: bytes where
  "key_J = [0x4a]"

definition slot_J :: Slot where
  "slot_J = \<lparr>key = Some key_J, val = Some [9], value_len = 1, state = SLOT_OCCUPIED\<rparr>"

definition slot_j :: Slot where
  "slot_j = \<lparr>key = Some key_j, val = Some [4, 5], value_len = 2, state = SLOT_OCCUPIED\<rparr>"

definition slot_k :: Slot where
  "slot_k = \<lparr>key = Some key_k, val = Some [1, 2, 3], value_len = 3, state = SLOT_OCCUPIED\<rparr>"

definition tomb_slot :: Slot where
  "tomb_slot = \<lparr>key = None, val = None, value_len = 0, state = SLOT_TOMBSTONE\<rparr>"






section \<open>Hashing: proofs\<close>

lemma fnv1a_loop_foldl:
  "fnv1a_loop k h = foldl (\<lambda>h b. (h XOR ucast b) * 0x100000001b3) h (cstr k)"
  by (induction k arbitrary: h) (simp_all add: cstr_def)

lemma cstr_idem [simp]: "cstr (cstr k) = cstr k"
  by (simp add: cstr_def)

section \<open>Level layout: proofs\<close>

declare find_probe.simps [simp del] find_levels.simps [simp del]
  insert_probe.simps [simp del] insert_levels.simps [simp del] init_levels.simps [simp del]

lemma layout_spec_cases:
  assumes "layout_spec mls r = Some caps"
  shows "(r \<le> 2 * mls \<and> caps = [r]) \<or>
         (2 * mls < r \<and> (\<exists>rest. caps = r div 2 # rest \<and> layout_spec mls (r - r div 2) = Some rest))"
  using assms by (subst (asm) layout_spec.simps) (auto split: if_splits Option.bind_splits)

lemma layout_spec_ne: "layout_spec mls r = Some caps \<Longrightarrow> caps \<noteq> []"
  by (drule layout_spec_cases) auto

lemma layout_spec_sum: "layout_spec mls r = Some caps \<Longrightarrow> sum_list caps = r"
proof (induction caps arbitrary: r)
  case Nil
  then show ?case by (auto dest: layout_spec_ne)
next
  case (Cons c rest)
  from layout_spec_cases [OF Cons.prems] show ?case
  proof
    assume "r \<le> 2 * mls \<and> c # rest = [r]"
    then show ?thesis by simp
  next
    assume "2 * mls < r \<and> (\<exists>rest'. c # rest = r div 2 # rest' \<and> layout_spec mls (r - r div 2) = Some rest')"
    then have c: "c = r div 2" and rest: "layout_spec mls (r - r div 2) = Some rest" by auto
    from Cons.IH [OF rest] c show ?thesis by simp
  qed
qed

lemma layout_spec_bounds:
  "layout_spec mls r = Some caps \<Longrightarrow> last caps \<le> 2 * mls \<and> (\<forall>c \<in> set (butlast caps). mls \<le> c)"
proof (induction caps arbitrary: r)
  case Nil
  then show ?case by (auto dest: layout_spec_ne)
next
  case (Cons c rest)
  from layout_spec_cases [OF Cons.prems] show ?case
  proof
    assume "r \<le> 2 * mls \<and> c # rest = [r]"
    then show ?thesis by simp
  next
    assume "2 * mls < r \<and> (\<exists>rest'. c # rest = r div 2 # rest' \<and> layout_spec mls (r - r div 2) = Some rest')"
    then have big: "2 * mls < r" and c: "c = r div 2"
      and rest: "layout_spec mls (r - r div 2) = Some rest" by auto
    from big c have "mls \<le> c" by simp
    with Cons.IH [OF rest] layout_spec_ne [OF rest] show ?thesis by simp
  qed
qed

lemma layout_spec_count:
  "layout_spec mls r = Some caps \<Longrightarrow> count_levels mls r n = Some (n + length caps - 1)"
proof (induction caps arbitrary: r n)
  case Nil
  then show ?case by (auto dest: layout_spec_ne)
next
  case (Cons c rest)
  from layout_spec_cases [OF Cons.prems] show ?case
  proof
    assume "r \<le> 2 * mls \<and> c # rest = [r]"
    then show ?thesis by (subst count_levels.simps) simp
  next
    assume "2 * mls < r \<and> (\<exists>rest'. c # rest = r div 2 # rest' \<and> layout_spec mls (r - r div 2) = Some rest')"
    then have big: "2 * mls < r"
      and rest: "layout_spec mls (r - r div 2) = Some rest" by auto
    from Cons.IH [OF rest, of "n + 1"] layout_spec_ne [OF rest] big show ?thesis
      by (subst count_levels.simps) (simp add: mult.commute)
  qed
qed

lemma layout_spec_init:
  "layout_spec mls r = Some caps \<Longrightarrow>
   init_levels i (i + (length caps - 1)) r acc = (acc @ init_list i (butlast caps), last caps)"
proof (induction caps arbitrary: r i acc)
  case Nil
  then show ?case by (auto dest: layout_spec_ne)
next
  case (Cons c rest)
  from layout_spec_cases [OF Cons.prems] show ?case
  proof
    assume "r \<le> 2 * mls \<and> c # rest = [r]"
    then show ?thesis by (subst init_levels.simps) (simp add: init_list_def)
  next
    assume "2 * mls < r \<and> (\<exists>rest'. c # rest = r div 2 # rest' \<and> layout_spec mls (r - r div 2) = Some rest')"
    then have c: "c = r div 2"
      and rest: "layout_spec mls (r - r div 2) = Some rest" by auto
    have ne: "rest \<noteq> []" by (rule layout_spec_ne [OF rest])
    then have len: "i + (length (c # rest) - 1) = Suc i + (length rest - 1)"
      by (cases rest) simp_all
    have il: "init_list i (c # butlast rest) = subarray_init (int i) c # init_list (Suc i) (butlast rest)"
      by (simp add: init_list_def upt_conv_Cons)
    have step: "init_levels i (Suc i + (length rest - 1)) r acc =
        init_levels (Suc i) (Suc i + (length rest - 1)) (r - r div 2)
          (acc @ [subarray_init (int i) (r div 2)])"
      by (subst init_levels.simps) simp
    have bl: "butlast (c # rest) = c # butlast rest" using ne by simp
    have la: "last (c # rest) = last rest" using ne by simp
    show ?thesis
      unfolding len step bl la il
      using Cons.IH [OF rest, of "Suc i" "acc @ [subarray_init (int i) c]"]
      by (simp add: c)
  qed
qed

lemma layout_spec_total: "0 < mls \<Longrightarrow> \<exists>caps. layout_spec mls r = Some caps"
proof (induction r rule: less_induct)
  case (less r)
  show ?case
  proof (cases "2 * mls < r")
    case True
    with less.prems have "r - r div 2 < r" by simp
    from less.IH [OF this less.prems] obtain rest where "layout_spec mls (r - r div 2) = Some rest" ..
    with True show ?thesis by (subst layout_spec.simps) simp
  next
    case False
    then show ?thesis by (subst layout_spec.simps) simp
  qed
qed

lemma build_levels_layout:
  assumes "layout_spec (min_level_size t) c = Some caps"
  shows "build_levels t c = Some (t\<lparr>num_levels := length caps, levels := init_list 0 caps\<rparr>)"
proof -
  have ne: "caps \<noteq> []" by (rule layout_spec_ne [OF assms])
  have il: "init_list 0 (butlast caps) @ [subarray_init (int (length caps - 1)) (last caps)]
             = init_list 0 caps"
    using ne by (induction caps rule: rev_induct) (simp_all add: init_list_def)
  show ?thesis
    using layout_spec_count [OF assms, of 0] layout_spec_init [OF assms, of 0 "[]"] ne il
    by (simp add: build_levels_def Let_def)
qed

lemma length_init_list [simp]: "length (init_list i caps) = length caps"
  by (simp add: init_list_def)

lemma capacity_init_list [simp]: "map capacity (init_list i caps) = caps"
  by (simp add: init_list_def subarray_init_def map_idI split_beta comp_def zip_map_fst_snd) 

lemma init_list_nth:
  "j < length caps \<Longrightarrow> init_list i caps ! j = subarray_init (int (i + j)) (caps ! j)"
  by (simp add: init_list_def)

section \<open>Find: proofs\<close>

text \<open>The specification-level probe sequence is the one that the program computes.\<close>

lemma probe_index_spec_idx:
  "probe_index_spec (unat h1) (unat h2) a cap = probe_idx h1 h2 a cap"
  by (simp add: probe_index_spec_def probe_idx_def unat_word_ariths unat_of_nat mod_simps)

lemma hash_pair_spec_dual:
  "hash_pair_spec k lv = (unat (fst (dual_hash k lv)), unat (snd (dual_hash k lv)))"
  by (simp add: hash_pair_spec_def dual_hash_def fnv1a_salted_def fnv1a_spec_def
      fnv1a_loop_foldl Let_def)

lemma key_equal_spec_matches [simp]: "key_equal_spec s k = key_matches s k"
  by (cases "key s") (simp_all add: key_equal_spec_def key_matches_def)

lemma probe_seq_code:
  "probe_seq_spec env sub k =
     map (\<lambda>a. probe_idx (fst (dual_hash k (level sub))) (snd (dual_hash k (level sub))) a
                (capacity sub))
       [0..<probe_budget env sub]"
  by (simp add: probe_seq_spec_def hash_pair_spec_dual probe_index_spec_idx probe_budget_def
      clamped_budget_def)

text \<open>
  In a level whose capacity divides \<open>2 ^ 64\<close> (a power of two, as the 32 slots of the
  levels of \<^verbatim>\<open>eht_create(64)\<close>) the 64-bit wrap-around of the sum does not show in the
  index.
\<close>

lemma probe_index_spec_dvd:
  "cap dvd 2 ^ 64 \<Longrightarrow> probe_index_spec h1 h2 a cap = (h1 + a * h2) mod cap"
  by (simp add: probe_index_spec_def mod_mod_cancel)

lemma find_probe_scan:
  "find_probe sub k h1 h2 budget a =
     scan_spec (slots sub) k (map (\<lambda>a. probe_idx h1 h2 a (capacity sub)) [a..<budget])"
proof (induction sub k h1 h2 budget a rule: find_probe.induct)
  case (1 sub k h1 h2 budget a)
  show ?case
  proof (cases "a < budget")
    case True
    then have upt: "[a..<budget] = a # [a + 1..<budget]" by (simp add: upt_conv_Cons)
    show ?thesis
      using True "1.IH" by (subst find_probe.simps) (simp add: upt Let_def)
  next
    case False
    then show ?thesis by (subst find_probe.simps) simp
  qed
qed

lemma scan_spec_Some:
  "scan_spec ss k ps = Some idx \<Longrightarrow>
     idx \<in> set ps \<and> is_occupied (ss ! idx) \<and> key_matches (ss ! idx) k"
  by (induction ps) (auto simp: is_occupied_def split: if_splits)

lemma probe_idx_less: "0 < cap \<Longrightarrow> probe_idx h1 h2 a cap < cap"
  by (simp add: probe_idx_def)

lemma probe_budget_le: "probe_budget env sub \<le> capacity sub"
  by (simp add: probe_budget_def split: option.splits)

lemma probe_seq_less: "idx \<in> set (probe_seq_spec env sub k) \<Longrightarrow> idx < capacity sub"
proof -
  assume "idx \<in> set (probe_seq_spec env sub k)"
  then obtain a where a: "a < probe_budget env sub"
    and idx: "idx = probe_idx (fst (dual_hash k (level sub))) (snd (dual_hash k (level sub))) a (capacity sub)"
    by (auto simp: probe_seq_code)
  from a probe_budget_le [of env sub] have "0 < capacity sub" by simp
  with idx show ?thesis by (simp add: probe_idx_less)
qed

lemma no_occupied_scan:
  assumes "length (slots sub) = capacity sub" "filter is_occupied (slots sub) = []"
  shows "scan_spec (slots sub) k (probe_seq_spec env sub k) = None"
proof (cases "scan_spec (slots sub) k (probe_seq_spec env sub k)")
  case None
  then show ?thesis .
next
  case (Some idx)
  from scan_spec_Some [OF Some] probe_seq_less [of idx env sub k]
  have "idx < capacity sub" "is_occupied (slots sub ! idx)" by auto
  with assms show ?thesis by (auto simp: filter_empty_conv)
qed

lemma find_levels_spec:
  assumes "num_levels t = length (levels t)" "\<forall>sub \<in> set (levels t). level_basic sub"
  shows "find_levels env t k li =
           first_level_spec env k (zip [li..<num_levels t] (drop li (levels t)))"
  using assms
proof (induction env t k li rule: find_levels.induct)
  case (1 env t k li)
  show ?case
  proof (cases "li < num_levels t")
    case False
    with "1.prems" show ?thesis by (subst find_levels.simps) simp
  next
    case True
    let ?sub = "levels t ! li"
    from True "1.prems" have ok: "level_basic ?sub" by simp
    from True "1.prems" have zip: "zip [li..<num_levels t] (drop li (levels t)) =
          (li, ?sub) # zip [li + 1..<num_levels t] (drop (li + 1) (levels t))"
      by (simp add: upt_conv_Cons Cons_nth_drop_Suc [symmetric])
    obtain h1 h2 where dh: "dual_hash k (level ?sub) = (h1, h2)" by force
    have probe: "find_probe ?sub k h1 h2 (probe_budget env ?sub) 0 =
                   scan_spec (slots ?sub) k (probe_seq_spec env ?sub k)"
      by (simp add: find_probe_scan probe_seq_code dh)
    show ?thesis
    proof (cases "count ?sub = 0")
      case c0: True
      with ok have "scan_spec (slots ?sub) k (probe_seq_spec env ?sub k) = None"
        by (intro no_occupied_scan) (simp_all add: level_basic_def)
      with c0 True "1.IH"(1) [OF True refl c0 "1.prems"] show ?thesis
        by (subst find_levels.simps) (simp add: zip)
    next
      case c1: False
      show ?thesis
      proof (cases "scan_spec (slots ?sub) k (probe_seq_spec env ?sub k)")
        case None
        with c1 True probe dh "1.IH"(2) [OF True refl c1 refl refl dh [symmetric] _ "1.prems"]
        show ?thesis
          by (subst find_levels.simps) (simp add: zip Let_def)
      next
        case (Some idx)
        with c1 True probe dh show ?thesis
          by (subst find_levels.simps) (simp add: zip Let_def)
      qed
    qed
  qed
qed

lemma find_key_refines:
  assumes "num_levels t = length (levels t)" "\<forall>sub \<in> set (levels t). level_basic sub"
  shows "find_key env t k = find_spec env t k"
  using find_levels_spec [OF assms, where k = k and li = 0 and env = env] assms(1)
  by (simp add: find_key_def find_spec_def)


lemma scan_spec_hit:
  assumes "j < length ps" "is_occupied (ss ! (ps ! j))" "key_matches (ss ! (ps ! j)) k"
    and "\<forall>j' < j. state (ss ! (ps ! j')) \<noteq> SLOT_EMPTY"
  shows "\<exists>idx. scan_spec ss k ps = Some idx"
  using assms
proof (induction ps arbitrary: j)
  case Nil
  then show ?case by simp
next
  case (Cons p ps)
  show ?case
  proof (cases j)
    case 0
    with Cons.prems show ?thesis by (simp add: is_occupied_def)
  next
    case (Suc j0)
    with Cons.prems have ne: "state (ss ! p) \<noteq> SLOT_EMPTY" by auto
    from Suc Cons.prems have "\<exists>idx. scan_spec ss k ps = Some idx"
      by (intro Cons.IH [of j0]) auto
    with ne show ?thesis by auto
  qed
qed

lemma first_level_spec_found:
  assumes "(li, sub) \<in> set lvs" "scan_spec (slots sub) k (probe_seq_spec env sub k) = Some idx"
  shows "0 \<le> level_idx (first_level_spec env k lvs)"
  using assms by (induction lvs) (auto split: option.splits)

lemma first_level_spec_sound:
  assumes "0 \<le> level_idx (first_level_spec env k lvs)"
  shows "\<exists>li sub idx. (li, sub) \<in> set lvs \<and>
           first_level_spec env k lvs = \<lparr>level_idx = int li, slot_idx = idx\<rparr> \<and>
           scan_spec (slots sub) k (probe_seq_spec env sub k) = Some idx"
  using assms
proof (induction lvs)
  case Nil
  then show ?case by simp
next
  case (Cons p lvs)
  obtain li sub where p: "p = (li, sub)" by force
  show ?case
  proof (cases "scan_spec (slots sub) k (probe_seq_spec env sub k)")
    case None
    with Cons p show ?thesis by fastforce
  next
    case (Some idx)
    with p show ?thesis by fastforce
  qed
qed

section \<open>Slot updates and the collected entries\<close>

lemma level_entries_eq: "level_entries sub = slot_entries (take (capacity sub) (slots sub))"
  by (simp add: level_entries_def slot_entries_def is_occupied_def [abs_def])

lemma slot_entries_append [simp]: "slot_entries (xs @ ys) = slot_entries xs @ slot_entries ys"
  by (simp add: slot_entries_def)

lemma slot_entries_single:
  "slot_entries [s] = (if is_occupied s then [(key s, val s, value_len s)] else [])"
  by (simp add: slot_entries_def)

lemma slot_entries_split:
  assumes "idx < length ss"
  shows "slot_entries ss =
           slot_entries (take idx ss) @ slot_entries [ss ! idx] @ slot_entries (drop (Suc idx) ss)"
proof -
  have "slot_entries ss = slot_entries (take idx ss @ [ss ! idx] @ drop (Suc idx) ss)"
    using id_take_nth_drop [OF assms] by simp
  then show ?thesis by (simp only: slot_entries_append)
qed

lemma slot_entries_update:
  assumes "idx < length ss"
  shows "slot_entries (ss[idx := s]) =
           slot_entries (take idx ss) @ slot_entries [s] @ slot_entries (drop (Suc idx) ss)"
proof -
  have "slot_entries (ss[idx := s]) = slot_entries (take idx ss @ [s] @ drop (Suc idx) ss)"
    using upd_conv_take_nth_drop [OF assms] by simp
  then show ?thesis by (simp only: slot_entries_append)
qed

lemma collect_update:
  assumes nl: "num_levels t = length (levels t)" and nl': "num_levels t' = num_levels t"
    and li: "li < length (levels t)"
    and len: "length (slots (levels t ! li)) = capacity (levels t ! li)"
    and idx: "idx < capacity (levels t ! li)"
    and lv': "levels t' = (levels t)[li := sub']"
    and sl': "slots sub' = (slots (levels t ! li))[idx := s']"
    and cap': "capacity sub' = capacity (levels t ! li)"
  shows "\<exists>A B. collect t = A @ slot_entries [slots (levels t ! li) ! idx] @ B \<and>
               collect t' = A @ slot_entries [s'] @ B"
proof -
  let ?lv = "levels t" and ?ss = "slots (levels t ! li)"
  let ?L = "concat (map level_entries (take li ?lv))"
  let ?R = "concat (map level_entries (drop (Suc li) ?lv))"
  have "collect t = concat (map level_entries (take li ?lv @ [?lv ! li] @ drop (Suc li) ?lv))"
    using id_take_nth_drop [OF li] nl by (simp add: collect_def)
  then have c: "collect t = ?L @ level_entries (?lv ! li) @ ?R"
    by (simp only: map_append concat_append) simp
  have "length (levels t') = num_levels t'" using nl nl' lv' by simp
  then have "take (num_levels t') (levels t') = levels t'" by simp
  then have "take (num_levels t') (levels t') = take li ?lv @ [sub'] @ drop (Suc li) ?lv"
    using upd_conv_take_nth_drop [OF li, of sub'] lv' by simp
  then have c': "collect t' = ?L @ level_entries sub' @ ?R"
    by (simp only: collect_def map_append concat_append) simp
  have e: "level_entries (?lv ! li) =
      slot_entries (take idx ?ss) @ slot_entries [?ss ! idx] @ slot_entries (drop (Suc idx) ?ss)"
    using slot_entries_split [of idx ?ss] idx len by (simp add: level_entries_eq)
  have e': "level_entries sub' =
      slot_entries (take idx ?ss) @ slot_entries [s'] @ slot_entries (drop (Suc idx) ?ss)"
    using slot_entries_update [of idx ?ss s'] idx len by (simp add: level_entries_eq sl' cap')
  show ?thesis
    apply (rule exI [of _ "?L @ slot_entries (take idx ?ss)"])
    apply (rule exI [of _ "slot_entries (drop (Suc idx) ?ss) @ ?R"])
    apply (simp only: c c' e e' append_assoc)
    done
qed

lemma collect_mem:
  assumes "num_levels t = length (levels t)" "li < length (levels t)"
    and "length (slots (levels t ! li)) = capacity (levels t ! li)"
    and "idx < capacity (levels t ! li)"
    and "is_occupied (slots (levels t ! li) ! idx)"
  shows "(key (slots (levels t ! li) ! idx), val (slots (levels t ! li) ! idx),
          value_len (slots (levels t ! li) ! idx)) \<in> set (collect t)"
proof -
  from collect_update [where t' = t and sub' = "levels t ! li"
      and s' = "slots (levels t ! li) ! idx", OF assms(1) refl assms(2,3,4)]
  obtain A B where "collect t = A @ slot_entries [slots (levels t ! li) ! idx] @ B"
    by auto
  with assms(5) show ?thesis by (simp add: slot_entries_single)
qed

lemma collect_memD:
  assumes "e \<in> set (collect t)" "num_levels t = length (levels t)"
  shows "\<exists>li idx. li < length (levels t) \<and> idx < capacity (levels t ! li) \<and>
           idx < length (slots (levels t ! li)) \<and>
           is_occupied (slots (levels t ! li) ! idx) \<and>
           e = (key (slots (levels t ! li) ! idx), val (slots (levels t ! li) ! idx),
                value_len (slots (levels t ! li) ! idx))"
proof -
  from assms obtain sub where sub: "sub \<in> set (levels t)" and e: "e \<in> set (level_entries sub)"
    by (auto simp: collect_def)
  from sub obtain li where li: "li < length (levels t)" "sub = levels t ! li"
    by (auto simp: in_set_conv_nth)
  from e obtain s where s: "s \<in> set (take (capacity sub) (slots sub))" "is_occupied s"
    "e = (key s, val s, value_len s)"
    by (auto simp: level_entries_eq slot_entries_def)
  from s(1) obtain idx where "idx < length (take (capacity sub) (slots sub))"
    "s = take (capacity sub) (slots sub) ! idx"
    by (auto simp: in_set_conv_nth)
  then have "idx < capacity sub" "idx < length (slots sub)" "s = slots sub ! idx" by auto
  with li s show ?thesis by blast
qed

section \<open>Preservation of the level invariant\<close>

lemma length_filter_update:
  "idx < length ss \<Longrightarrow>
     length (filter P (ss[idx := s])) + (if P (ss ! idx) then 1 else 0) =
     length (filter P ss) + (if P s then 1 else 0)"
proof -
  assume idx: "idx < length ss"
  let ?l = "take idx ss" and ?r = "drop (Suc idx) ss"
  have "length (filter P (ss[idx := s])) = length (filter P (?l @ s # ?r))"
    by (simp only: upd_conv_take_nth_drop [OF idx])
  moreover have "length (filter P ss) = length (filter P (?l @ ss ! idx # ?r))"
    by (rule arg_cong [OF id_take_nth_drop [OF idx]])
  ultimately show ?thesis by simp
qed


lemma length_filter_pos: "idx < length ss \<Longrightarrow> P (ss ! idx) \<Longrightarrow> 0 < length (filter P ss)"
  by (metis filter_empty_conv length_greater_0_conv nth_mem)

lemma used_less:
  assumes "idx < length ss" "state (ss ! idx) = SLOT_EMPTY"
  shows "length (filter is_occupied ss) + length (filter (\<lambda>s. state s = SLOT_TOMBSTONE) ss)
           < length ss"
proof -
  have "length (filter is_occupied ss) + length (filter (\<lambda>s. state s = SLOT_TOMBSTONE) ss)
          = length (filter (\<lambda>s. state s \<noteq> SLOT_EMPTY) ss)"
  proof (induction ss)
    case Nil
    show ?case by simp
  next
    case (Cons s ss)
    then show ?case by (cases "state s") (simp_all add: is_occupied_def)
  qed
  moreover have "length (filter (\<lambda>s. state s \<noteq> SLOT_EMPTY) ss) < length ss"
    using assms by (intro length_filter_less [of "ss ! idx"]) simp_all
  ultimately show ?thesis by simp
qed

lemma probe_budget_eq:
  "probe_budget env sub = clamped_budget env (count sub + tombstones sub) (capacity sub)"
  by (simp add: probe_budget_def clamped_budget_def)

lemma probe_budget_pos_cap: "a < probe_budget env sub \<Longrightarrow> 0 < capacity sub"
  using probe_budget_le [of env sub] by simp

lemma claim_slot_fields [simp]:
  "level (claim_slot sub idx k v vlen) = level sub"
  "capacity (claim_slot sub idx k v vlen) = capacity sub"
  "slots (claim_slot sub idx k v vlen) =
     (slots sub)[idx := \<lparr>key = k, val = v, value_len = vlen, state = SLOT_OCCUPIED\<rparr>]"
  "count (claim_slot sub idx k v vlen) = count sub + 1"
  "tombstones (claim_slot sub idx k v vlen) =
     (if state (slots sub ! idx) = SLOT_TOMBSTONE then size_dec (tombstones sub)
      else tombstones sub)"
  by (simp_all add: claim_slot_def Let_def)

lemma level_ok_claim:
  assumes ok: "level_ok env sub" and mono: "budget_mono env"
    and e: "entry_ok (Some k, v, vlen)"
    and a: "a < probe_budget env sub"
    and idx: "idx = probe_idx (fst (dual_hash k (level sub))) (snd (dual_hash k (level sub))) a
                      (capacity sub)"
    and free: "state (slots sub ! idx) \<noteq> SLOT_OCCUPIED"
    and before: "\<forall>a' < a. state (slots sub ! probe_idx (fst (dual_hash k (level sub)))
                   (snd (dual_hash k (level sub))) a' (capacity sub)) \<noteq> SLOT_EMPTY"
  shows "level_ok env (claim_slot sub idx (Some k) v vlen)"
proof -
  let ?new = "\<lparr>key = Some k, val = v, value_len = vlen, state = SLOT_OCCUPIED\<rparr>"
  let ?sub' = "claim_slot sub idx (Some k) v vlen"
  let ?ss = "slots sub"
  from ok have len: "length ?ss = capacity sub"
    and cnt: "count sub = length (filter is_occupied ?ss)"
    and tmb: "tombstones sub = length (filter (\<lambda>s. state s = SLOT_TOMBSTONE) ?ss)"
    and chains: "\<And>i. i < capacity sub \<Longrightarrow> is_occupied (?ss ! i) \<Longrightarrow>
        entry_ok (key (?ss ! i), val (?ss ! i), value_len (?ss ! i)) \<and> chain_ok env sub i"
    by (simp_all add: level_ok_def)
  have cap: "0 < capacity sub" by (rule probe_budget_pos_cap [OF a])
  have idx_lt: "idx < capacity sub" unfolding idx by (rule probe_idx_less [OF cap])
  with len have idx_len: "idx < length ?ss" by simp
  have nocc: "\<not> is_occupied (?ss ! idx)" using free by (simp add: is_occupied_def)
  have cnt': "count ?sub' = length (filter is_occupied (slots ?sub'))"
    using length_filter_update [OF idx_len, of is_occupied ?new] nocc cnt
    by (simp add: is_occupied_def)
  have tmb': "tombstones ?sub' = length (filter (\<lambda>s. state s = SLOT_TOMBSTONE) (slots ?sub'))"
  proof (cases "state (?ss ! idx) = SLOT_TOMBSTONE")
    case True
    with tmb length_filter_pos [OF idx_len, of "\<lambda>s. state s = SLOT_TOMBSTONE"]
    have "0 < tombstones sub" by simp
    with True length_filter_update [OF idx_len, of "\<lambda>s. state s = SLOT_TOMBSTONE" ?new] tmb
    show ?thesis by (simp add: size_dec_def)
  next
    case False
    with length_filter_update [OF idx_len, of "\<lambda>s. state s = SLOT_TOMBSTONE" ?new] tmb
    show ?thesis by simp
  qed
  have budget: "probe_budget env sub \<le> probe_budget env ?sub'"
  proof (cases "state (?ss ! idx) = SLOT_TOMBSTONE")
    case True
    with tmb length_filter_pos [OF idx_len, of "\<lambda>s. state s = SLOT_TOMBSTONE"]
    have "0 < tombstones sub" by simp
    with True have eq: "count ?sub' + tombstones ?sub' = count sub + tombstones sub"
      by (simp add: size_dec_def)
    have "probe_budget env ?sub' =
        clamped_budget env (count ?sub' + tombstones ?sub') (capacity sub)"
      by (simp only: probe_budget_eq claim_slot_fields(2))
    then show ?thesis unfolding eq probe_budget_eq by simp
  next
    case False
    with free have "state (?ss ! idx) = SLOT_EMPTY" by (cases "state (?ss ! idx)") simp_all
    from used_less [OF idx_len this] cnt tmb len
    have "count sub + tombstones sub < capacity sub" by simp
    with mono have "clamped_budget env (count sub + tombstones sub) (capacity sub)
        \<le> clamped_budget env (Suc (count sub + tombstones sub)) (capacity sub)"
      by (simp add: budget_mono_def)
    moreover from False have "count ?sub' + tombstones ?sub' = Suc (count sub + tombstones sub)"
      by simp
    ultimately show ?thesis by (simp only: probe_budget_eq claim_slot_fields(2))
  qed
  have nonempty: "\<And>j. j < capacity sub \<Longrightarrow> state (?ss ! j) \<noteq> SLOT_EMPTY \<Longrightarrow>
      state (slots ?sub' ! j) \<noteq> SLOT_EMPTY"
    using idx_len len by (simp add: nth_list_update)
  have chain_new: "chain_ok env ?sub' idx"
    unfolding chain_ok_def Let_def
  proof (intro exI [of _ a] conjI allI impI)
    show "a < probe_budget env ?sub'" using a budget by simp
    show "probe_idx (fst (dual_hash (the (key (slots ?sub' ! idx))) (level ?sub')))
            (snd (dual_hash (the (key (slots ?sub' ! idx))) (level ?sub'))) a (capacity ?sub') = idx"
      using idx idx_len by simp
  next
    fix a' assume "a' < a"
    with before have "state (?ss ! probe_idx (fst (dual_hash k (level sub)))
        (snd (dual_hash k (level sub))) a' (capacity sub)) \<noteq> SLOT_EMPTY" by simp
    from nonempty [OF probe_idx_less [OF cap] this]
    show "state (slots ?sub' ! probe_idx (fst (dual_hash (the (key (slots ?sub' ! idx))) (level ?sub')))
            (snd (dual_hash (the (key (slots ?sub' ! idx))) (level ?sub'))) a' (capacity ?sub'))
          \<noteq> SLOT_EMPTY"
      using idx_len by simp
  qed
  have chain_old: "chain_ok env ?sub' i" if i: "i < capacity sub" "i \<noteq> idx" "is_occupied (?ss ! i)" for i
  proof -
    let ?k = "the (key (?ss ! i))"
    from chains [OF i(1,3)] obtain b where b: "b < probe_budget env sub"
      "probe_idx (fst (dual_hash ?k (level sub))) (snd (dual_hash ?k (level sub))) b (capacity sub) = i"
      "\<forall>b' < b. state (?ss ! probe_idx (fst (dual_hash ?k (level sub)))
          (snd (dual_hash ?k (level sub))) b' (capacity sub)) \<noteq> SLOT_EMPTY"
      by (auto simp: chain_ok_def Let_def)
    have key': "the (key (slots ?sub' ! i)) = ?k" using i by simp
    show ?thesis
      unfolding chain_ok_def Let_def key'
    proof (intro exI [of _ b] conjI allI impI)
      show "b < probe_budget env ?sub'" using b(1) budget by simp
      show "probe_idx (fst (dual_hash ?k (level ?sub'))) (snd (dual_hash ?k (level ?sub'))) b
              (capacity ?sub') = i" using b(2) by simp
    next
      fix b' assume "b' < b"
      with b(3) have "state (?ss ! probe_idx (fst (dual_hash ?k (level sub)))
          (snd (dual_hash ?k (level sub))) b' (capacity sub)) \<noteq> SLOT_EMPTY" by simp
      from nonempty [OF probe_idx_less [OF cap] this]
      show "state (slots ?sub' ! probe_idx (fst (dual_hash ?k (level ?sub')))
              (snd (dual_hash ?k (level ?sub'))) b' (capacity ?sub')) \<noteq> SLOT_EMPTY"
        by simp
    qed
  qed
  have slots_ok: "entry_ok (key (slots ?sub' ! i), val (slots ?sub' ! i), value_len (slots ?sub' ! i))
      \<and> chain_ok env ?sub' i" if i: "i < capacity ?sub'" "is_occupied (slots ?sub' ! i)" for i
  proof (cases "i = idx")
    case True
    with e chain_new idx_len show ?thesis by simp
  next
    case False
    with i idx_len have occ: "is_occupied (?ss ! i)" by simp
    from i have ilt: "i < capacity sub" by simp
    from chains [OF ilt occ] chain_old [OF ilt False occ] False show ?thesis by simp
  qed
  show ?thesis
    unfolding level_ok_def
    using len cnt' tmb' slots_ok by simp
qed

lemma level_ok_keep:
  assumes ok: "level_ok env sub"
    and idx: "idx < capacity sub"
    and occ: "is_occupied (slots sub ! idx)"
    and sl': "slots sub' = (slots sub)[idx := s']"
    and cap': "capacity sub' = capacity sub" and lev': "level sub' = level sub"
    and cnt': "count sub' = length (filter is_occupied (slots sub'))"
    and tmb': "tombstones sub' = length (filter (\<lambda>s. state s = SLOT_TOMBSTONE) (slots sub'))"
    and used': "count sub' + tombstones sub' = count sub + tombstones sub"
    and ne: "state s' \<noteq> SLOT_EMPTY"
    and same: "is_occupied s' \<Longrightarrow>
                 key s' = key (slots sub ! idx) \<and> entry_ok (key s', val s', value_len s')"
  shows "level_ok env sub'"
proof -
  let ?ss = "slots sub"
  from ok have len: "length ?ss = capacity sub"
    and chains: "\<And>i. i < capacity sub \<Longrightarrow> is_occupied (?ss ! i) \<Longrightarrow>
        entry_ok (key (?ss ! i), val (?ss ! i), value_len (?ss ! i)) \<and> chain_ok env sub i"
    by (simp_all add: level_ok_def)
  from idx len have idx_len: "idx < length ?ss" by simp
  have budget: "probe_budget env sub' = probe_budget env sub"
    by (simp only: probe_budget_eq used' cap')
  have nonempty: "\<And>j. j < capacity sub \<Longrightarrow> state (?ss ! j) \<noteq> SLOT_EMPTY \<Longrightarrow>
      state (slots sub' ! j) \<noteq> SLOT_EMPTY"
    using idx_len len ne by (simp add: sl' nth_list_update)
  have slots_ok: "entry_ok (key (slots sub' ! i), val (slots sub' ! i), value_len (slots sub' ! i))
      \<and> chain_ok env sub' i" if i: "i < capacity sub'" "is_occupied (slots sub' ! i)" for i
  proof -
    from i have ilt: "i < capacity sub" by (simp add: cap')
    have occ_i: "is_occupied (?ss ! i)"
      using i occ idx_len by (cases "i = idx") (simp_all add: sl')
    have key_i: "key (slots sub' ! i) = key (?ss ! i)"
      using i same idx_len by (cases "i = idx") (simp_all add: sl')
    have entry_i: "entry_ok (key (slots sub' ! i), val (slots sub' ! i), value_len (slots sub' ! i))"
    proof (cases "i = idx")
      case True
      with i idx_len have "is_occupied s'" by (simp add: sl')
      from same [OF this] have "entry_ok (key s', val s', value_len s')" ..
      with True idx_len show ?thesis by (simp add: sl')
    next
      case False
      with chains [OF ilt occ_i] show ?thesis by (simp add: sl')
    qed
    let ?k = "the (key (?ss ! i))"
    from chains [OF ilt occ_i] obtain b where b: "b < probe_budget env sub"
      "probe_idx (fst (dual_hash ?k (level sub))) (snd (dual_hash ?k (level sub))) b (capacity sub) = i"
      "\<forall>b' < b. state (?ss ! probe_idx (fst (dual_hash ?k (level sub)))
          (snd (dual_hash ?k (level sub))) b' (capacity sub)) \<noteq> SLOT_EMPTY"
      by (auto simp: chain_ok_def Let_def)
    from ilt have cap: "0 < capacity sub" by simp
    have "chain_ok env sub' i"
      unfolding chain_ok_def Let_def key_i budget cap' lev'
    proof (intro exI [of _ b] conjI allI impI)
      show "b < probe_budget env sub" by (rule b(1))
      show "probe_idx (fst (dual_hash ?k (level sub))) (snd (dual_hash ?k (level sub))) b
              (capacity sub) = i" by (rule b(2))
    next
      fix b' assume "b' < b"
      with b(3) have "state (?ss ! probe_idx (fst (dual_hash ?k (level sub)))
          (snd (dual_hash ?k (level sub))) b' (capacity sub)) \<noteq> SLOT_EMPTY" by simp
      from nonempty [OF probe_idx_less [OF cap] this]
      show "state (slots sub' ! probe_idx (fst (dual_hash ?k (level sub)))
              (snd (dual_hash ?k (level sub))) b' (capacity sub)) \<noteq> SLOT_EMPTY" .
    qed
    with entry_i show ?thesis ..
  qed
  show ?thesis
    unfolding level_ok_def
    using len cnt' tmb' slots_ok by (simp add: sl' cap')
qed

lemma level_ok_count_pos:
  assumes "level_ok env sub" "idx < capacity sub" "is_occupied (slots sub ! idx)"
  shows "0 < count sub"
  using assms length_filter_pos [of idx "slots sub" is_occupied] by (simp add: level_ok_def)

lemma level_ok_delete:
  assumes ok: "level_ok env sub" and idx: "idx < capacity sub"
    and occ: "is_occupied (slots sub ! idx)"
  shows "level_ok env
           (sub\<lparr>slots := (slots sub)
                   [idx := (slot_free_data (slots sub ! idx))\<lparr>state := SLOT_TOMBSTONE\<rparr>],
                 count := size_dec (count sub),
                 tombstones := tombstones sub + 1\<rparr>)"
proof -
  let ?s' = "(slot_free_data (slots sub ! idx))\<lparr>state := SLOT_TOMBSTONE\<rparr>"
  from ok idx have idx_len: "idx < length (slots sub)" by (simp add: level_ok_def)
  have pos: "0 < count sub" by (rule level_ok_count_pos [OF ok idx occ])
  from occ have nt: "state (slots sub ! idx) \<noteq> SLOT_TOMBSTONE" by (simp add: is_occupied_def)
  have c: "size_dec (count sub) = length (filter is_occupied ((slots sub)[idx := ?s']))"
    using length_filter_update [OF idx_len, of is_occupied ?s'] occ ok pos
    by (simp add: level_ok_def size_dec_def is_occupied_def)
  have t: "tombstones sub + 1 =
      length (filter (\<lambda>s. state s = SLOT_TOMBSTONE) ((slots sub)[idx := ?s']))"
    using length_filter_update [OF idx_len, of "\<lambda>s. state s = SLOT_TOMBSTONE" ?s'] nt ok
    by (simp add: level_ok_def)
  show ?thesis
    by (rule level_ok_keep [OF ok idx occ, where s' = ?s'])
      (use c t pos in \<open>simp_all add: size_dec_def is_occupied_def\<close>)
qed

lemma level_ok_update:
  assumes ok: "level_ok env sub" and idx: "idx < capacity sub"
    and occ: "is_occupied (slots sub ! idx)"
  shows "level_ok env
           (sub\<lparr>slots := (slots sub)
                   [idx := (slots sub ! idx)\<lparr>val := Some v, value_len := length v\<rparr>]\<rparr>)"
proof -
  let ?s' = "(slots sub ! idx)\<lparr>val := Some v, value_len := length v\<rparr>"
  from ok idx have idx_len: "idx < length (slots sub)" by (simp add: level_ok_def)
  from ok idx occ
  have eo: "entry_ok (key (slots sub ! idx), val (slots sub ! idx), value_len (slots sub ! idx))"
    by (simp add: level_ok_def)
  then have eo': "entry_ok (key ?s', val ?s', value_len ?s')"
    by (auto simp: entry_ok_def split: option.splits)
  have c: "count sub = length (filter is_occupied ((slots sub)[idx := ?s']))"
    using length_filter_update [OF idx_len, of is_occupied ?s'] occ ok
    by (simp add: level_ok_def is_occupied_def)
  have t: "tombstones sub =
      length (filter (\<lambda>s. state s = SLOT_TOMBSTONE) ((slots sub)[idx := ?s']))"
    using length_filter_update [OF idx_len, of "\<lambda>s. state s = SLOT_TOMBSTONE" ?s'] ok
    by (simp add: level_ok_def)
  show ?thesis
    by (rule level_ok_keep [OF ok idx occ, where s' = ?s'])
      (use c t eo' occ in \<open>simp_all add: is_occupied_def\<close>)
qed

section \<open>Preservation of the table invariant\<close>

lemma insert_probe_Some:
  "insert_probe sub h1 h2 budget a0 = Some idx \<Longrightarrow>
     \<exists>a. a0 \<le> a \<and> a < budget \<and> idx = probe_idx h1 h2 a (capacity sub) \<and>
         state (slots sub ! idx) \<noteq> SLOT_OCCUPIED \<and>
         (\<forall>a'. a0 \<le> a' \<and> a' < a \<longrightarrow>
            state (slots sub ! probe_idx h1 h2 a' (capacity sub)) = SLOT_OCCUPIED)"
proof (induction sub h1 h2 budget a0 rule: insert_probe.induct)
  case (1 sub h1 h2 budget a0)
  let ?idx = "probe_idx h1 h2 a0 (capacity sub)"
  from "1.prems" have lt: "a0 < budget"
    by (subst (asm) insert_probe.simps) (simp split: if_splits)
  show ?case
  proof (cases "state (slots sub ! ?idx) = SLOT_EMPTY \<or> state (slots sub ! ?idx) = SLOT_TOMBSTONE")
    case True
    with "1.prems" lt have "idx = ?idx"
      by (subst (asm) insert_probe.simps) (simp add: Let_def)
    with True lt show ?thesis by (intro exI [of _ a0]) auto
  next
    case False
    then have occ: "state (slots sub ! ?idx) = SLOT_OCCUPIED"
      by (cases "state (slots sub ! ?idx)") simp_all
    from False "1.prems" lt have "insert_probe sub h1 h2 budget (a0 + 1) = Some idx"
      by (subst (asm) insert_probe.simps) (simp add: Let_def)
    from "1.IH" [OF lt refl refl False this] obtain a where a: "a0 + 1 \<le> a" "a < budget"
      "idx = probe_idx h1 h2 a (capacity sub)" "state (slots sub ! idx) \<noteq> SLOT_OCCUPIED"
      "\<forall>a'. a0 + 1 \<le> a' \<and> a' < a \<longrightarrow>
          state (slots sub ! probe_idx h1 h2 a' (capacity sub)) = SLOT_OCCUPIED"
      by blast
    have "\<forall>a'. a0 \<le> a' \<and> a' < a \<longrightarrow>
          state (slots sub ! probe_idx h1 h2 a' (capacity sub)) = SLOT_OCCUPIED"
    proof (intro allI impI)
      fix a' assume a': "a0 \<le> a' \<and> a' < a"
      show "state (slots sub ! probe_idx h1 h2 a' (capacity sub)) = SLOT_OCCUPIED"
      proof (cases "a' = a0")
        case True
        with occ show ?thesis by simp
      next
        case False
        with a' a(5) show ?thesis by simp
      qed
    qed
    with a show ?thesis by (intro exI [of _ a]) auto
  qed
qed

lemma sum_list_map_update:
  assumes "li < length xs"
  shows "sum_list (map f (xs[li := y])) + f (xs ! li) = sum_list (map f xs) + (f y :: nat)"
proof -
  let ?l = "take li xs" and ?r = "drop (Suc li) xs"
  have "sum_list (map f (xs[li := y])) = sum_list (map f (?l @ y # ?r))"
    by (simp only: upd_conv_take_nth_drop [OF assms])
  moreover have "sum_list (map f xs) = sum_list (map f (?l @ xs ! li # ?r))"
    by (rule arg_cong [OF id_take_nth_drop [OF assms]])
  ultimately show ?thesis by simp
qed

lemma table_inv_update:
  assumes inv: "table_inv env t" and li: "li < length (levels t)"
    and ok': "level_ok env sub'"
    and cap': "capacity sub' = capacity (levels t ! li)"
    and lv': "levels t' = (levels t)[li := sub']"
    and same: "num_levels t' = num_levels t" "min_level_size t' = min_level_size t"
      "total_capacity t' = total_capacity t"
    and cnt: "tcount t' + count (levels t ! li) = tcount t + count sub'"
    and dist: "distinct (map fst (collect t'))"
  shows "table_inv env t'"
proof -
  have caps: "map capacity (levels t') = map capacity (levels t)"
    using li cap' by (simp add: lv' map_update list_update_same_conv)
  have oks: "\<forall>sub \<in> set (levels t'). level_ok env sub"
    using inv ok' li by (auto simp: lv' table_inv_def dest!: set_update_subset_insert [THEN subsetD])
  have "tcount t' = sum_list (map count (levels t'))"
    using sum_list_map_update [OF li, of count sub'] cnt inv
    by (simp add: lv' table_inv_def)
  with inv caps oks dist same li show ?thesis
    by (simp add: table_inv_def lv')
qed

lemma insert_levels_beyond:
  "\<not> li < num_levels t \<Longrightarrow> insert_levels env t k v vlen li = None"
  by (subst insert_levels.simps) simp

lemma insert_levels_step:
  "li < num_levels t \<Longrightarrow>
   insert_levels env t k v vlen li =
     (case insert_probe (levels t ! li) (fst (dual_hash (the k) (level (levels t ! li))))
             (snd (dual_hash (the k) (level (levels t ! li))))
             (probe_budget env (levels t ! li)) 0 of
        Some idx \<Rightarrow>
          Some (t\<lparr>levels := (levels t)[li := claim_slot (levels t ! li) idx k v vlen],
                  tcount := tcount t + 1\<rparr>)
      | None \<Rightarrow> insert_levels env t k v vlen (li + 1))"
  by (subst insert_levels.simps) (simp add: Let_def split_beta)

lemma insert_levels_correct:
  assumes inv: "table_inv env t" and mono: "budget_mono env"
    and e: "entry_ok (Some k, v, vlen)"
    and fresh: "Some k \<notin> fst ` set (collect t)"
    and res: "insert_levels env t (Some k) v vlen li0 = Some t'"
  shows "table_inv env t' \<and>
         (\<exists>A B. collect t = A @ B \<and> collect t' = A @ [(Some k, v, vlen)] @ B) \<and>
         total_capacity t' = total_capacity t \<and> min_level_size t' = min_level_size t"
  using res
proof (induction "num_levels t - li0" arbitrary: li0)
  case 0
  then show ?case by (simp add: insert_levels_beyond)
next
  case (Suc n)
  from Suc.hyps(2) have li: "li0 < num_levels t" by simp
  let ?sub = "levels t ! li0"
  let ?h1 = "fst (dual_hash k (level ?sub))" and ?h2 = "snd (dual_hash k (level ?sub))"
  show ?case
  proof (cases "insert_probe ?sub ?h1 ?h2 (probe_budget env ?sub) 0")
    case None
    with Suc.prems li have "insert_levels env t (Some k) v vlen (li0 + 1) = Some t'"
      by (simp add: insert_levels_step)
    moreover from Suc.hyps(2) have "n = num_levels t - (li0 + 1)" by simp
    ultimately show ?thesis by (rule Suc.hyps(1) [rotated])
  next
    case (Some idx)
    let ?new = "\<lparr>key = Some k, val = v, value_len = vlen, state = SLOT_OCCUPIED\<rparr>"
    let ?sub' = "claim_slot ?sub idx (Some k) v vlen"
    from Some Suc.prems li
    have t': "t' = t\<lparr>levels := (levels t)[li0 := ?sub'], tcount := tcount t + 1\<rparr>"
      by (simp add: insert_levels_step)
    from inv li have nl: "num_levels t = length (levels t)" and lil: "li0 < length (levels t)"
      and ok: "level_ok env ?sub"
      by (simp_all add: table_inv_def)
    from insert_probe_Some [OF Some] obtain a where a: "a < probe_budget env ?sub"
      "idx = probe_idx ?h1 ?h2 a (capacity ?sub)" "state (slots ?sub ! idx) \<noteq> SLOT_OCCUPIED"
      "\<forall>a' < a. state (slots ?sub ! probe_idx ?h1 ?h2 a' (capacity ?sub)) = SLOT_OCCUPIED"
      by auto
    from a(4) have before: "\<forall>a' < a. state (slots ?sub ! probe_idx ?h1 ?h2 a' (capacity ?sub))
        \<noteq> SLOT_EMPTY" by simp
    have ok': "level_ok env ?sub'"
      by (rule level_ok_claim [OF ok mono e a(1) a(2) a(3) before])
    have idx: "idx < capacity ?sub"
      unfolding a(2) by (rule probe_idx_less [OF probe_budget_pos_cap [OF a(1)]])
    from ok have len: "length (slots ?sub) = capacity ?sub" by (simp add: level_ok_def)
    from collect_update [where t = t and t' = t' and li = li0 and idx = idx and sub' = ?sub'
        and s' = ?new, OF nl _ lil len idx]
    obtain A B where AB: "collect t = A @ slot_entries [slots ?sub ! idx] @ B"
      "collect t' = A @ slot_entries [?new] @ B"
      by (auto simp: t')
    from a(3) AB have c: "collect t = A @ B" and c': "collect t' = A @ [(Some k, v, vlen)] @ B"
      by (simp_all add: slot_entries_single is_occupied_def)
    from inv have "distinct (map fst (collect t))" by (simp add: table_inv_def)
    with fresh have dist: "distinct (map fst (collect t'))"
      unfolding c c' by auto
    have "table_inv env t'"
      by (rule table_inv_update [OF inv lil ok' _ _ _ _ _ _ dist]) (simp_all add: t')
    with c c' show ?thesis by (auto simp: t')
  qed
qed

section \<open>Rebuild and insertion with ownership transfer\<close>

lemma level_ok_init: "level_ok env (subarray_init j c)"
  by (simp add: level_ok_def subarray_init_def empty_slot_def is_occupied_def)

lemma level_entries_init: "level_entries (subarray_init j c) = []"
  by (simp add: level_entries_eq subarray_init_def slot_entries_def empty_slot_def
      is_occupied_def)

lemma init_list_set: "sub \<in> set (init_list i caps) \<Longrightarrow> \<exists>j c. sub = subarray_init j c"
  by (auto simp: init_list_def)

lemma count_init_list: "sum_list (map count (init_list i caps)) = 0"
  by (auto simp: init_list_def subarray_init_def)

lemma collect_fresh:
  "levels t = init_list 0 caps \<Longrightarrow> collect t = []"
  by (auto simp: collect_def level_entries_init dest!: in_set_takeD init_list_set)

lemma table_inv_fresh:
  assumes "0 < min_level_size t" "0 < c" "layout_spec (min_level_size t) c = Some caps"
    and "levels t = init_list 0 caps" "num_levels t = length caps"
    and "tcount t = 0" "total_capacity t = c"
  shows "table_inv env t"
  using assms collect_fresh [OF assms(4)]
  by (auto simp: table_inv_def count_init_list level_ok_init dest!: init_list_set)

lemma collect_entry_ok:
  assumes "table_inv env t" "e \<in> set (collect t)"
  shows "entry_ok e"
proof -
  from assms have nl: "num_levels t = length (levels t)" by (simp add: table_inv_def)
  from collect_memD [OF assms(2) nl] obtain li idx where
    *: "li < length (levels t)" "idx < capacity (levels t ! li)"
       "is_occupied (slots (levels t ! li) ! idx)"
       "e = (key (slots (levels t ! li) ! idx), val (slots (levels t ! li) ! idx),
             value_len (slots (levels t ! li) ! idx))"
    by blast
  from assms(1) *(1) have "level_ok env (levels t ! li)" by (simp add: table_inv_def)
  with * show ?thesis by (simp add: level_ok_def)
qed

lemma reinsert_correct:
  assumes ins: "ins_correct env ins"
    and "table_inv env t" "\<forall>e \<in> set es. entry_ok e" "distinct (map fst es)"
    and "fst ` set es \<inter> fst ` set (collect t) = {}"
    and "reinsert ins t es = Some t'"
  shows "table_inv env t' \<and> set (collect t') = set es \<union> set (collect t) \<and>
         total_capacity t \<le> total_capacity t' \<and> min_level_size t' = min_level_size t"
  using assms(2-)
proof (induction es arbitrary: t)
  case Nil
  then show ?case by simp
next
  case (Cons e es)
  from Cons.prems(5) obtain t1 where t1: "ins t e = Some t1" and rest: "reinsert ins t1 es = Some t'"
    by (auto split: option.splits)
  from Cons.prems have "entry_ok e" "fst e \<notin> fst ` set (collect t)" by auto
  from ins Cons.prems(1) this t1
  have "table_inv env t1 \<and> set (collect t1) = insert e (set (collect t)) \<and>
      total_capacity t \<le> total_capacity t1 \<and> min_level_size t1 = min_level_size t"
    unfolding ins_correct_def by blast
  then have inv1: "table_inv env t1" and c1: "set (collect t1) = insert e (set (collect t))"
    and cap1: "total_capacity t \<le> total_capacity t1" and mls1: "min_level_size t1 = min_level_size t"
    by simp_all
  from Cons.prems have disj: "fst ` set es \<inter> fst ` set (collect t1) = {}"
    unfolding c1 by auto
  from Cons.prems have "\<forall>e \<in> set es. entry_ok e" "distinct (map fst es)" by simp_all
  from Cons.IH [OF inv1 this disj rest] c1 cap1 mls1 show ?case by auto
qed

lemma rebuild_with_correct:
  assumes ins: "ins_correct env ins"
    and inv: "table_inv env t" and c: "0 < c"
    and res: "rebuild_with ins t c = Some t'"
  shows "table_inv env t' \<and> set (collect t') = set (collect t) \<and>
         c \<le> total_capacity t' \<and> min_level_size t' = min_level_size t"
proof -
  let ?t1 = "t\<lparr>levels := [], num_levels := 0, tcount := 0, total_capacity := c\<rparr>"
  from inv have mls: "0 < min_level_size t" by (simp add: table_inv_def)
  from layout_spec_total [OF mls] obtain caps
    where caps: "layout_spec (min_level_size t) c = Some caps" ..
  let ?t2 = "?t1\<lparr>num_levels := length caps, levels := init_list 0 caps\<rparr>"
  from caps have b: "build_levels ?t1 c = Some ?t2"
    by (intro build_levels_layout) simp
  with res have r: "reinsert ins ?t2 (collect t) = Some t'"
    by (simp add: rebuild_with_def Let_def)
  have inv2: "table_inv env ?t2"
    by (rule table_inv_fresh [where c = c and caps = caps]) (use mls c caps in simp_all)
  have c2: "collect ?t2 = []" by (rule collect_fresh [of _ caps]) simp
  from inv have d: "distinct (map fst (collect t))" by (simp add: table_inv_def)
  from collect_entry_ok [OF inv] have eo: "\<forall>e \<in> set (collect t). entry_ok e" by blast
  have disj: "fst ` set (collect t) \<inter> fst ` set (collect ?t2) = {}"
    unfolding c2 by simp
  from reinsert_correct [OF ins inv2 eo d disj r] c2
  show ?thesis by simp
qed

lemma insert_levels_set:
  assumes "table_inv env t" "budget_mono env" "entry_ok (Some k, v, vlen)"
    and "Some k \<notin> fst ` set (collect t)"
    and "insert_levels env t (Some k) v vlen li0 = Some t'"
  shows "table_inv env t' \<and> set (collect t') = insert (Some k, v, vlen) (set (collect t)) \<and>
         total_capacity t \<le> total_capacity t' \<and> min_level_size t' = min_level_size t"
proof -
  from insert_levels_correct [OF assms] obtain A B where
    "table_inv env t'" "collect t = A @ B" "collect t' = A @ [(Some k, v, vlen)] @ B"
    "total_capacity t' = total_capacity t" "min_level_size t' = min_level_size t"
    by blast
  then show ?thesis by simp
qed

lemma insert_owned_correct:
  assumes mono: "budget_mono env"
  shows "ins_correct env (insert_owned env fuel)"
proof (induction fuel)
  case 0
  show ?case
    unfolding ins_correct_def
  proof (intro allI impI)
    fix t e t'
    assume inv: "table_inv env t" and eo: "entry_ok e"
      and fr: "fst e \<notin> fst ` set (collect t)" and res: "insert_owned env 0 t e = Some t'"
    from eo obtain k v vlen where e: "e = (Some k, v, vlen)"
      by (auto simp: entry_ok_def split: prod.splits option.splits)
    from res have il: "insert_levels env t (Some k) v vlen 0 = Some t'"
      unfolding e by simp
    from eo have eo': "entry_ok (Some k, v, vlen)" unfolding e .
    from fr have fr': "Some k \<notin> fst ` set (collect t)" unfolding e by simp
    show "table_inv env t' \<and> set (collect t') = insert e (set (collect t)) \<and>
        total_capacity t \<le> total_capacity t' \<and> min_level_size t' = min_level_size t"
      unfolding e by (rule insert_levels_set [OF inv mono eo' fr' il])
  qed
next
  case (Suc fuel)
  show ?case
    unfolding ins_correct_def
  proof (intro allI impI)
    fix t e t'
    assume inv: "table_inv env t" and eo: "entry_ok e"
      and fr: "fst e \<notin> fst ` set (collect t)"
      and res: "insert_owned env (Suc fuel) t e = Some t'"
    from eo obtain k v vlen where e: "e = (Some k, v, vlen)"
      by (auto simp: entry_ok_def split: prod.splits option.splits)
    from eo have eo': "entry_ok (Some k, v, vlen)" unfolding e .
    from fr have fr': "Some k \<notin> fst ` set (collect t)" unfolding e by simp
    show "table_inv env t' \<and> set (collect t') = insert e (set (collect t)) \<and>
        total_capacity t \<le> total_capacity t' \<and> min_level_size t' = min_level_size t"
    proof (cases "insert_levels env t (Some k) v vlen 0")
      case (Some t1)
      with res have il: "insert_levels env t (Some k) v vlen 0 = Some t'"
        unfolding e by simp
      show ?thesis unfolding e by (rule insert_levels_set [OF inv mono eo' fr' il])
    next
      case None
      from res have "(case rebuild_with (insert_owned env fuel) t (total_capacity t * 2) of
                None \<Rightarrow> None | Some t1 \<Rightarrow> insert_owned env fuel t1 e) = Some t'"
        unfolding e by (simp add: None)
      then obtain t1
        where t1: "rebuild_with (insert_owned env fuel) t (total_capacity t * 2) = Some t1"
          and t': "insert_owned env fuel t1 e = Some t'"
        by (cases "rebuild_with (insert_owned env fuel) t (total_capacity t * 2)") simp_all
      from inv have pos: "0 < total_capacity t * 2" by (simp add: table_inv_def)
      from rebuild_with_correct [OF Suc.IH inv pos t1]
      have inv1: "table_inv env t1" and c1: "set (collect t1) = set (collect t)"
        and cap1: "total_capacity t * 2 \<le> total_capacity t1"
        and mls1: "min_level_size t1 = min_level_size t"
        by simp_all
      from fr c1 have fr1: "fst e \<notin> fst ` set (collect t1)" by simp
      from Suc.IH inv1 eo fr1 t'
      have "table_inv env t' \<and> set (collect t') = insert e (set (collect t1)) \<and>
        total_capacity t1 \<le> total_capacity t' \<and> min_level_size t' = min_level_size t1"
        unfolding ins_correct_def by blast
      with c1 cap1 mls1 show ?thesis by simp
    qed
  qed
qed

lemma rebuild_correct:
  assumes "budget_mono env" "table_inv env t" "0 < c" "rebuild env fuel t c = Some t'"
  shows "table_inv env t' \<and> set (collect t') = set (collect t) \<and>
         c \<le> total_capacity t' \<and> min_level_size t' = min_level_size t"
  using rebuild_with_correct [OF insert_owned_correct [OF assms(1)] assms(2,3)] assms(4)
  by (simp add: rebuild_def)

section \<open>Find and the contents of the table\<close>

lemma dual_hash_cstr: "dual_hash (cstr k) lv = dual_hash k lv"
  by (simp add: dual_hash_def fnv1a_salted_def fnv1a_loop_foldl)

lemma table_inv_level:
  "table_inv env t \<Longrightarrow> li < length (levels t) \<Longrightarrow> level_ok env (levels t ! li)"
  by (simp add: table_inv_def)

lemma find_sound:
  assumes inv: "table_inv env t" and found: "0 \<le> level_idx (find_key env t k)"
  shows "\<exists>li idx. find_key env t k = \<lparr>level_idx = int li, slot_idx = idx\<rparr> \<and>
           li < length (levels t) \<and> idx < capacity (levels t ! li) \<and>
           is_occupied (slots (levels t ! li) ! idx) \<and>
           key (slots (levels t ! li) ! idx) = Some (cstr k)"
proof -
  from inv have nl: "num_levels t = length (levels t)"
    and oks: "\<forall>sub \<in> set (levels t). level_basic sub"
    by (simp_all add: table_inv_def level_ok_def level_basic_def)
  have fs: "find_key env t k = find_spec env t k" by (rule find_key_refines [OF nl oks])
  let ?lvs = "zip [0..<num_levels t] (take (num_levels t) (levels t))"
  from found fs have "0 \<le> level_idx (first_level_spec env k ?lvs)" by (simp add: find_spec_def)
  from first_level_spec_sound [OF this] obtain li sub idx where
    mem: "(li, sub) \<in> set ?lvs"
    and res: "first_level_spec env k ?lvs = \<lparr>level_idx = int li, slot_idx = idx\<rparr>"
    and scan: "scan_spec (slots sub) k (probe_seq_spec env sub k) = Some idx"
    by blast
  from mem nl have li: "li < length (levels t)" and sub: "sub = levels t ! li"
    by (auto simp: in_set_zip)
  from scan_spec_Some [OF scan] have idx: "idx \<in> set (probe_seq_spec env sub k)"
    and occ: "is_occupied (slots sub ! idx)" and km: "key_matches (slots sub ! idx) k"
    by simp_all
  from probe_seq_less [OF idx] have idx_lt: "idx < capacity sub" .
  from table_inv_level [OF inv li] idx_lt occ
  have "entry_ok (key (slots sub ! idx), val (slots sub ! idx), value_len (slots sub ! idx))"
    by (simp add: level_ok_def sub)
  with km have "key (slots sub ! idx) = Some (cstr k)"
    by (auto simp: entry_ok_def key_matches_def split: option.splits)
  with res fs li idx_lt occ show ?thesis
    by (simp add: find_spec_def sub)
qed

lemma find_complete:
  assumes inv: "table_inv env t" and mem: "Some (cstr k) \<in> fst ` set (collect t)"
  shows "0 \<le> level_idx (find_key env t k)"
proof -
  from inv have nl: "num_levels t = length (levels t)"
    and oks: "\<forall>sub \<in> set (levels t). level_basic sub"
    by (simp_all add: table_inv_def level_ok_def level_basic_def)
  have fs: "find_key env t k = find_spec env t k" by (rule find_key_refines [OF nl oks])
  from mem obtain e where e: "e \<in> set (collect t)" "fst e = Some (cstr k)" by force
  from collect_memD [OF e(1) nl] e(2) obtain li idx where
    li: "li < length (levels t)" and idx: "idx < capacity (levels t ! li)"
    and occ: "is_occupied (slots (levels t ! li) ! idx)"
    and key: "key (slots (levels t ! li) ! idx) = Some (cstr k)"
    by auto
  let ?sub = "levels t ! li"
  let ?h1 = "fst (dual_hash k (level ?sub))" and ?h2 = "snd (dual_hash k (level ?sub))"
  from table_inv_level [OF inv li] idx occ have "chain_ok env ?sub idx"
    by (simp add: level_ok_def)
  then obtain a where a: "a < probe_budget env ?sub"
    "probe_idx ?h1 ?h2 a (capacity ?sub) = idx"
    "\<forall>a' < a. state (slots ?sub ! probe_idx ?h1 ?h2 a' (capacity ?sub)) \<noteq> SLOT_EMPTY"
    by (auto simp: chain_ok_def Let_def key dual_hash_cstr)
  let ?ps = "probe_seq_spec env ?sub k"
  have len: "a < length ?ps" using a(1) by (simp add: probe_seq_code)
  have nth: "\<And>j. j \<le> a \<Longrightarrow> ?ps ! j = probe_idx ?h1 ?h2 j (capacity ?sub)"
    using a(1) by (simp add: probe_seq_code)
  have km: "key_matches (slots ?sub ! (?ps ! a)) k"
    using key a(2) nth [of a] by (simp add: key_matches_def)
  have oc: "is_occupied (slots ?sub ! (?ps ! a))" using occ a(2) nth [of a] by simp
  have ne: "\<forall>j' < a. state (slots ?sub ! (?ps ! j')) \<noteq> SLOT_EMPTY"
    using a(3) nth by simp
  from scan_spec_hit [OF len oc km ne] obtain idx'
    where scan: "scan_spec (slots ?sub) k ?ps = Some idx'" ..
  have "(li, ?sub) \<in> set (zip [0..<num_levels t] (take (num_levels t) (levels t)))"
    using li nl by (auto simp: in_set_zip intro!: exI [of _ li])
  from first_level_spec_found [OF this scan] fs show ?thesis by (simp add: find_spec_def)
qed

lemma find_not_found:
  "\<not> 0 \<le> level_idx (find_levels env t k li) \<Longrightarrow>
     find_levels env t k li = \<lparr>level_idx = - 1, slot_idx = 0\<rparr>"
proof (induction env t k li rule: find_levels.induct)
  case (1 env t k li)
  show ?case
  proof (cases "li < num_levels t")
    case False
    then show ?thesis by (subst find_levels.simps) simp
  next
    case True
    obtain h1 h2 where dh: "dual_hash k (level (levels t ! li)) = (h1, h2)" by force
    show ?thesis
    proof (cases "count (levels t ! li) = 0")
      case c0: True
      with True "1.prems" have "\<not> 0 \<le> level_idx (find_levels env t k (li + 1))"
        by (subst (asm) find_levels.simps) simp
      from "1.IH"(1) [OF True refl c0 this] True c0 show ?thesis
        by (subst find_levels.simps) simp
    next
      case c1: False
      show ?thesis
      proof (cases "find_probe (levels t ! li) k h1 h2 (probe_budget env (levels t ! li)) 0")
        case None
        with True c1 dh "1.prems" have "\<not> 0 \<le> level_idx (find_levels env t k (li + 1))"
          by (subst (asm) find_levels.simps) (simp add: Let_def)
        from "1.IH"(2) [OF True refl c1 refl refl dh [symmetric] None this] True c1 dh None
        show ?thesis by (subst find_levels.simps) (simp add: Let_def)
      next
        case (Some idx)
        with True c1 dh "1.prems" show ?thesis
          by (subst (asm) find_levels.simps) (simp add: Let_def)
      qed
    qed
  qed
qed

lemma distinct_collect: "table_inv env t \<Longrightarrow> distinct (collect t)"
  by (auto simp: table_inv_def distinct_map)

lemma contents_iff:
  "table_inv env t \<Longrightarrow> contents t k = Some x \<longleftrightarrow> (Some (cstr k), x) \<in> set (collect t)"
  by (simp add: contents_def table_inv_def)

lemma contents_None_iff:
  "contents t k = None \<longleftrightarrow> Some (cstr k) \<notin> fst ` set (collect t)"
  by (simp add: contents_def map_of_eq_None_iff)

lemma eht_get_contents:
  assumes inv: "table_inv env t"
  shows "eht_get env t k = contents t k"
proof (cases "0 \<le> level_idx (find_key env t k)")
  case False
  with find_complete [OF inv, of k] have "contents t k = None"
    by (auto simp: contents_None_iff)
  with False show ?thesis by (simp add: eht_get_def Let_def)
next
  case True
  from find_sound [OF inv True] obtain li idx where
    fr: "find_key env t k = \<lparr>level_idx = int li, slot_idx = idx\<rparr>"
    and li: "li < length (levels t)" and idx: "idx < capacity (levels t ! li)"
    and occ: "is_occupied (slots (levels t ! li) ! idx)"
    and key: "key (slots (levels t ! li) ! idx) = Some (cstr k)"
    by blast
  let ?s = "slots (levels t ! li) ! idx"
  from inv have nl: "num_levels t = length (levels t)" by (simp add: table_inv_def)
  from table_inv_level [OF inv li] have len: "length (slots (levels t ! li)) = capacity (levels t ! li)"
    by (simp add: level_ok_def)
  from collect_mem [OF nl li len idx occ] key
  have "(Some (cstr k), val ?s, value_len ?s) \<in> set (collect t)" by simp
  with contents_iff [OF inv] have "contents t k = Some (val ?s, value_len ?s)" by simp
  with fr show ?thesis by (simp add: eht_get_def Let_def slot_at_def)
qed

lemma eht_contains_contents:
  assumes inv: "table_inv env t"
  shows "eht_contains env t k = (if contents t k = None then 0 else 1)"
proof (cases "0 \<le> level_idx (find_key env t k)")
  case False
  with find_complete [OF inv, of k] have "contents t k = None"
    by (auto simp: contents_None_iff)
  with False show ?thesis by (simp add: eht_contains_def)
next
  case True
  then have "eht_get env t k \<noteq> None" by (simp add: eht_get_def Let_def)
  then have "contents t k \<noteq> None" by (simp add: eht_get_contents [OF inv])
  with True show ?thesis by (simp add: eht_contains_def)
qed

lemma tcount_collect:
  assumes inv: "table_inv env t"
  shows "tcount t = length (collect t)"
proof -
  have "\<And>sub. sub \<in> set (levels t) \<Longrightarrow> count sub = length (level_entries sub)"
    using inv by (auto simp: table_inv_def level_ok_def level_entries_eq slot_entries_def)
  then have "map count (levels t) = map (\<lambda>sub. length (level_entries sub)) (levels t)"
    by simp
  then have "sum_list (map count (levels t)) =
      sum_list (map (\<lambda>sub. length (level_entries sub)) (levels t))"
    by (rule arg_cong [where f = sum_list])
  moreover from inv have "take (num_levels t) (levels t) = levels t" by (simp add: table_inv_def)
  moreover from inv have "tcount t = sum_list (map count (levels t))" by (simp add: table_inv_def)
  ultimately show ?thesis
    by (simp add: collect_def length_concat comp_def)
qed

lemma tcount_card: "table_inv env t \<Longrightarrow> tcount t = card (set (collect t))"
  by (simp add: tcount_collect distinct_card [OF distinct_collect])

section \<open>The public operations on a table that satisfies the invariant\<close>

lemma set_without_key:
  "distinct (map fst (A @ [(K, x)] @ B)) \<Longrightarrow>
     {e \<in> set (A @ [(K, x)] @ B). fst e \<noteq> K} = set A \<union> set B"
  by (auto simp: image_iff)

lemma eht_insert_found:
  assumes inv: "table_inv env t" and found: "0 \<le> level_idx (find_key env t k)"
    and res: "eht_insert env fuel t k v = Some t'"
  shows "\<exists>li idx. find_key env t k = \<lparr>level_idx = int li, slot_idx = idx\<rparr> \<and>
           li < length (levels t) \<and> idx < capacity (levels t ! li) \<and>
           is_occupied (slots (levels t ! li) ! idx) \<and>
           key (slots (levels t ! li) ! idx) = Some (cstr k) \<and>
           t' = set_slot t li idx
                  ((slots (levels t ! li) ! idx)\<lparr>val := Some v, value_len := length v\<rparr>) \<and>
           table_inv env t' \<and>
           set (collect t') =
             insert (Some (cstr k), Some v, length v)
               {e \<in> set (collect t). fst e \<noteq> Some (cstr k)}"
proof -
  from find_sound [OF inv found] obtain li idx where
    fr: "find_key env t k = \<lparr>level_idx = int li, slot_idx = idx\<rparr>"
    and li: "li < length (levels t)" and idx: "idx < capacity (levels t ! li)"
    and occ: "is_occupied (slots (levels t ! li) ! idx)"
    and key: "key (slots (levels t ! li) ! idx) = Some (cstr k)"
    by blast
  let ?sub = "levels t ! li"
  let ?s = "slots ?sub ! idx"
  let ?s' = "?s\<lparr>val := Some v, value_len := length v\<rparr>"
  let ?sub' = "?sub\<lparr>slots := (slots ?sub)[idx := ?s']\<rparr>"
  from res fr have t': "t' = set_slot t li idx ?s'"
    by (simp add: eht_insert_def Let_def slot_at_def)
  then have lv': "levels t' = (levels t)[li := ?sub']" by (simp add: set_slot_def)
  from inv have nl: "num_levels t = length (levels t)" by (simp add: table_inv_def)
  have ok: "level_ok env ?sub" by (rule table_inv_level [OF inv li])
  then have len: "length (slots ?sub) = capacity ?sub" by (simp add: level_ok_def)
  have ok': "level_ok env ?sub'" by (rule level_ok_update [OF ok idx occ])
  from collect_update [where t = t and t' = t' and li = li and idx = idx and sub' = ?sub'
      and s' = ?s', OF nl _ li len idx lv']
  obtain A B where AB: "collect t = A @ slot_entries [?s] @ B"
    "collect t' = A @ slot_entries [?s'] @ B"
    by (auto simp: t' set_slot_def)
  from occ key AB have c: "collect t = A @ [(Some (cstr k), val ?s, value_len ?s)] @ B"
    and c': "collect t' = A @ [(Some (cstr k), Some v, length v)] @ B"
    by (simp_all add: slot_entries_single is_occupied_def)
  from inv have d: "distinct (map fst (collect t))" by (simp add: table_inv_def)
  then have dist: "distinct (map fst (collect t'))" unfolding c c' by simp
  have inv': "table_inv env t'"
    by (rule table_inv_update [OF inv li ok' _ lv' _ _ _ _ dist]) (simp_all add: t' set_slot_def)
  have "set (collect t') =
      insert (Some (cstr k), Some v, length v) {e \<in> set (collect t). fst e \<noteq> Some (cstr k)}"
    using set_without_key [OF d [unfolded c]] unfolding c c' by auto
  with fr li idx occ key t' inv' show ?thesis by blast
qed

lemma eht_insert_new:
  assumes inv: "table_inv env t" and mono: "budget_mono env"
    and nf: "\<not> 0 \<le> level_idx (find_key env t k)"
    and res: "eht_insert env fuel t k v = Some t'"
  shows "table_inv env t' \<and>
         Some (cstr k) \<notin> fst ` set (collect t) \<and>
         set (collect t') = insert (Some (cstr k), Some v, length v) (set (collect t)) \<and>
         total_capacity t \<le> total_capacity t' \<and>
         min_level_size t' = min_level_size t \<and>
         (load_limit env (total_capacity t) \<le> tcount t \<longrightarrow>
            total_capacity t * 2 \<le> total_capacity t')"
proof -
  let ?e = "(Some (cstr k), Some v, length v)"
  from find_complete [OF inv, of k] nf have fresh: "Some (cstr k) \<notin> fst ` set (collect t)"
    by blast
  from inv have pos: "0 < total_capacity t" by (simp add: table_inv_def)
  define r1 where "r1 = (if load_limit env (total_capacity t) \<le> tcount t
      then rebuild env fuel t (total_capacity t * 2) else Some t)"
  from res nf obtain t1 where t1: "r1 = Some t1"
    by (cases r1) (simp_all add: eht_insert_def Let_def r1_def)
  define r2 where "r2 = (if tomb_limit env (total_capacity t1) \<le> total_ts t1
      then rebuild env fuel t1 (total_capacity t1) else Some t1)"
  from res nf t1 obtain t2 where t2: "r2 = Some t2"
    by (cases r2) (simp_all add: eht_insert_def Let_def r1_def [symmetric] r2_def)
  from res nf t1 t2 have io: "insert_owned env fuel t2 ?e = Some t'"
    by (simp add: eht_insert_def Let_def r1_def [symmetric] r2_def [symmetric])
  have s1: "table_inv env t1 \<and> set (collect t1) = set (collect t) \<and>
      total_capacity t \<le> total_capacity t1 \<and> min_level_size t1 = min_level_size t \<and>
      (load_limit env (total_capacity t) \<le> tcount t \<longrightarrow>
         total_capacity t * 2 \<le> total_capacity t1)"
  proof (cases "load_limit env (total_capacity t) \<le> tcount t")
    case True
    with t1 have "rebuild env fuel t (total_capacity t * 2) = Some t1" by (simp add: r1_def)
    from rebuild_correct [OF mono inv _ this] pos show ?thesis by simp
  next
    case False
    with t1 inv show ?thesis by (simp add: r1_def)
  qed
  then have inv1: "table_inv env t1" by simp
  then have pos1: "0 < total_capacity t1" by (simp add: table_inv_def)
  have s2: "table_inv env t2 \<and> set (collect t2) = set (collect t1) \<and>
      total_capacity t1 \<le> total_capacity t2 \<and> min_level_size t2 = min_level_size t1"
  proof (cases "tomb_limit env (total_capacity t1) \<le> total_ts t1")
    case True
    with t2 have "rebuild env fuel t1 (total_capacity t1) = Some t2" by (simp add: r2_def)
    from rebuild_correct [OF mono inv1 pos1 this] show ?thesis by simp
  next
    case False
    with t2 inv1 show ?thesis by (simp add: r2_def)
  qed
  have eo: "entry_ok ?e" by (simp add: entry_ok_def)
  from fresh s1 s2 have fr2: "fst ?e \<notin> fst ` set (collect t2)" by simp
  from insert_owned_correct [OF mono, of fuel] s2 eo fr2 io
  have "table_inv env t' \<and> set (collect t') = insert ?e (set (collect t2)) \<and>
      total_capacity t2 \<le> total_capacity t' \<and> min_level_size t' = min_level_size t2"
    unfolding ins_correct_def by blast
  with s1 s2 fresh show ?thesis by auto
qed

lemma eht_insert_correct:
  assumes inv: "table_inv env t" and mono: "budget_mono env"
    and res: "eht_insert env fuel t k v = Some t'"
  shows "table_inv env t' \<and>
         set (collect t') =
           insert (Some (cstr k), Some v, length v)
             {e \<in> set (collect t). fst e \<noteq> Some (cstr k)}"
proof (cases "0 \<le> level_idx (find_key env t k)")
  case True
  from eht_insert_found [OF inv True res] show ?thesis by blast
next
  case False
  from eht_insert_new [OF inv mono False res]
  have "table_inv env t'" "Some (cstr k) \<notin> fst ` set (collect t)"
    "set (collect t') = insert (Some (cstr k), Some v, length v) (set (collect t))"
    by simp_all
  moreover from this(2) have "{e \<in> set (collect t). fst e \<noteq> Some (cstr k)} = set (collect t)"
    by force
  ultimately show ?thesis by simp
qed

lemma eht_delete_found:
  assumes inv: "table_inv env t" and found: "0 \<le> level_idx (find_key env t k)"
  shows "\<exists>li idx. find_key env t k = \<lparr>level_idx = int li, slot_idx = idx\<rparr> \<and>
           li < length (levels t) \<and> idx < capacity (levels t ! li) \<and>
           is_occupied (slots (levels t ! li) ! idx) \<and>
           key (slots (levels t ! li) ! idx) = Some (cstr k) \<and>
           0 < count (levels t ! li) \<and> 0 < tcount t \<and>
           eht_delete env t k =
             (1, t\<lparr>levels := (levels t)
                     [li := (levels t ! li)
                        \<lparr>slots := (slots (levels t ! li))
                           [idx := \<lparr>key = None, val = None, value_len = 0,
                                    state = SLOT_TOMBSTONE\<rparr>],
                         count := count (levels t ! li) - 1,
                         tombstones := tombstones (levels t ! li) + 1\<rparr>],
                  tcount := tcount t - 1\<rparr>) \<and>
           table_inv env (snd (eht_delete env t k)) \<and>
           set (collect (snd (eht_delete env t k))) =
             {e \<in> set (collect t). fst e \<noteq> Some (cstr k)}"
proof -
  from find_sound [OF inv found] obtain li idx where
    fr: "find_key env t k = \<lparr>level_idx = int li, slot_idx = idx\<rparr>"
    and li: "li < length (levels t)" and idx: "idx < capacity (levels t ! li)"
    and occ: "is_occupied (slots (levels t ! li) ! idx)"
    and key: "key (slots (levels t ! li) ! idx) = Some (cstr k)"
    by blast
  let ?sub = "levels t ! li"
  let ?s = "slots ?sub ! idx"
  let ?s' = "(slot_free_data ?s)\<lparr>state := SLOT_TOMBSTONE\<rparr>"
  let ?sub' = "?sub\<lparr>slots := (slots ?sub)[idx := ?s'], count := size_dec (count ?sub),
                     tombstones := tombstones ?sub + 1\<rparr>"
  let ?t' = "t\<lparr>levels := (levels t)[li := ?sub'], tcount := size_dec (tcount t)\<rparr>"
  from fr have del: "eht_delete env t k = (1, ?t')"
    by (simp add: eht_delete_def Let_def)
  from inv have nl: "num_levels t = length (levels t)" by (simp add: table_inv_def)
  have ok: "level_ok env ?sub" by (rule table_inv_level [OF inv li])
  then have len: "length (slots ?sub) = capacity ?sub" by (simp add: level_ok_def)
  have ok': "level_ok env ?sub'" by (rule level_ok_delete [OF ok idx occ])
  have cpos: "0 < count ?sub" by (rule level_ok_count_pos [OF ok idx occ])
  from collect_mem [OF nl li len idx occ] have "collect t \<noteq> []" by auto
  with tcount_collect [OF inv] have tpos: "0 < tcount t" by simp
  from collect_update [where t = t and t' = ?t' and li = li and idx = idx and sub' = ?sub'
      and s' = ?s', OF nl _ li len idx]
  obtain A B where AB: "collect t = A @ slot_entries [?s] @ B"
    "collect ?t' = A @ slot_entries [?s'] @ B"
    by auto
  from occ key AB have c: "collect t = A @ [(Some (cstr k), val ?s, value_len ?s)] @ B"
    and c': "collect ?t' = A @ B"
    by (simp_all add: slot_entries_single is_occupied_def)
  from inv have d: "distinct (map fst (collect t))" by (simp add: table_inv_def)
  then have dist: "distinct (map fst (collect ?t'))" unfolding c c' by simp
  have inv': "table_inv env ?t'"
    by (rule table_inv_update [OF inv li ok' _ _ _ _ _ _ dist])
      (use cpos tpos in \<open>simp_all add: size_dec_def\<close>)
  have set': "set (collect ?t') = {e \<in> set (collect t). fst e \<noteq> Some (cstr k)}"
    using set_without_key [OF d [unfolded c]] unfolding c c' by auto
  have s': "?s' = \<lparr>key = None, val = None, value_len = 0, state = SLOT_TOMBSTONE\<rparr>"
    by (simp add: slot_free_data_def)
  from cpos tpos have "?t' = t\<lparr>levels := (levels t)
                     [li := ?sub
                        \<lparr>slots := (slots ?sub)
                           [idx := \<lparr>key = None, val = None, value_len = 0,
                                    state = SLOT_TOMBSTONE\<rparr>],
                         count := count ?sub - 1,
                         tombstones := tombstones ?sub + 1\<rparr>],
                  tcount := tcount t - 1\<rparr>"
    by (simp add: s' size_dec_def)
  with fr li idx occ key cpos tpos del inv' set' show ?thesis
    by (intro exI [of _ li] exI [of _ idx]) simp
qed

lemma eht_delete_absent:
  assumes "\<not> 0 \<le> level_idx (find_key env t k)"
  shows "eht_delete env t k = (0, t)"
  using assms by (simp add: eht_delete_def Let_def)

section \<open>Reachable tables satisfy the invariant\<close>

lemma eht_create_eq:
  "\<exists>caps. layout_spec 16 (if c < 64 then 64 else c) = Some caps \<and>
     eht_create c =
       Some \<lparr>total_capacity = (if c < 64 then 64 else c), tcount = 0,
             num_levels = length caps, min_level_size = 16, levels = init_list 0 caps\<rparr>"
proof -
  let ?c = "if c < 64 then 64 else c"
  let ?t = "\<lparr>total_capacity = ?c, tcount = 0, num_levels = 0, min_level_size = 16, levels = []\<rparr>"
  from layout_spec_total [of 16 ?c] obtain caps where caps: "layout_spec 16 ?c = Some caps"
    by auto
  then have "layout_spec (min_level_size ?t) ?c = Some caps" by simp
  from build_levels_layout [OF this] caps show ?thesis
    by (simp add: eht_create_def Let_def)
qed

lemma eht_create_inv:
  assumes "eht_create c = Some t"
  shows "table_inv env t"
proof -
  from eht_create_eq [of c] assms obtain caps where
    caps: "layout_spec 16 (if c < 64 then 64 else c) = Some caps"
    and t: "t = \<lparr>total_capacity = (if c < 64 then 64 else c), tcount = 0,
             num_levels = length caps, min_level_size = 16, levels = init_list 0 caps\<rparr>"
    by auto
  show ?thesis
    by (rule table_inv_fresh [where c = "if c < 64 then 64 else c" and caps = caps])
      (use caps in \<open>simp_all add: t\<close>)
qed

lemma eht_delete_inv:
  assumes "table_inv env t" "eht_delete env t k = (r, t')"
  shows "table_inv env t'"
proof (cases "0 \<le> level_idx (find_key env t k)")
  case True
  from eht_delete_found [OF assms(1) True] assms(2) show ?thesis by auto
next
  case False
  from eht_delete_absent [OF False] assms show ?thesis by simp
qed

lemma reachable_inv:
  assumes mono: "budget_mono env" and r: "reachable env t"
  shows "table_inv env t"
  using r
proof (induction rule: reachable.induct)
  case (r_create c t)
  then show ?case by (rule eht_create_inv)
next
  case (r_insert t fuel k v t')
  from eht_insert_correct [OF r_insert.IH mono r_insert.hyps(2)] show ?case ..
next
  case (r_delete t k r t')
  from eht_delete_inv [OF r_delete.IH r_delete.hyps(2)] show ?case .
next
  case (r_grow t fuel t')
  from r_grow.IH have "0 < total_capacity t * 2" by (simp add: table_inv_def)
  from rebuild_correct [OF mono r_grow.IH this r_grow.hyps(2)] show ?case ..
next
  case (r_compact t fuel t')
  from r_compact.IH have "0 < total_capacity t" by (simp add: table_inv_def)
  from rebuild_correct [OF mono r_compact.IH this r_compact.hyps(2)] show ?case ..
qed

section \<open>Shape, layout and counters of reachable tables\<close>

lemma level_ok_basic: "level_ok env sub \<Longrightarrow> level_basic sub"
  by (simp add: level_ok_def level_basic_def)

lemma table_inv_basic: "table_inv env t \<Longrightarrow> basic_inv t"
  by (auto simp: table_inv_def basic_inv_def level_ok_basic)

lemma level_basic_claim:
  assumes b: "level_basic sub" and idx: "idx < capacity sub"
    and free: "state (slots sub ! idx) \<noteq> SLOT_OCCUPIED"
  shows "level_basic (claim_slot sub idx k v vlen)"
proof -
  let ?new = "\<lparr>key = k, val = v, value_len = vlen, state = SLOT_OCCUPIED\<rparr>"
  from b idx have idx_len: "idx < length (slots sub)" by (simp add: level_basic_def)
  have c: "count sub + 1 = length (filter is_occupied ((slots sub)[idx := ?new]))"
    using length_filter_update [OF idx_len, of is_occupied ?new] free b
    by (simp add: is_occupied_def level_basic_def)
  have t: "(if state (slots sub ! idx) = SLOT_TOMBSTONE then size_dec (tombstones sub)
            else tombstones sub) =
      length (filter (\<lambda>s. state s = SLOT_TOMBSTONE) ((slots sub)[idx := ?new]))"
  proof (cases "state (slots sub ! idx) = SLOT_TOMBSTONE")
    case True
    with b length_filter_pos [OF idx_len, of "\<lambda>s. state s = SLOT_TOMBSTONE"]
    have "0 < tombstones sub" by (simp add: level_basic_def)
    with True length_filter_update [OF idx_len, of "\<lambda>s. state s = SLOT_TOMBSTONE" ?new] b
    show ?thesis by (simp add: size_dec_def level_basic_def)
  next
    case False
    with length_filter_update [OF idx_len, of "\<lambda>s. state s = SLOT_TOMBSTONE" ?new] b
    show ?thesis by (simp add: level_basic_def)
  qed
  from b c t show ?thesis by (simp add: level_basic_def)
qed

lemma level_basic_delete:
  assumes b: "level_basic sub" and idx: "idx < capacity sub"
    and occ: "is_occupied (slots sub ! idx)"
  shows "level_basic
           (sub\<lparr>slots := (slots sub)
                   [idx := (slot_free_data (slots sub ! idx))\<lparr>state := SLOT_TOMBSTONE\<rparr>],
                 count := size_dec (count sub),
                 tombstones := tombstones sub + 1\<rparr>)"
proof -
  let ?s' = "(slot_free_data (slots sub ! idx))\<lparr>state := SLOT_TOMBSTONE\<rparr>"
  from b idx have idx_len: "idx < length (slots sub)" by (simp add: level_basic_def)
  from b length_filter_pos [OF idx_len, of is_occupied] occ
  have pos: "0 < count sub" by (simp add: level_basic_def)
  from occ have nt: "state (slots sub ! idx) \<noteq> SLOT_TOMBSTONE" by (simp add: is_occupied_def)
  have c: "size_dec (count sub) = length (filter is_occupied ((slots sub)[idx := ?s']))"
    using length_filter_update [OF idx_len, of is_occupied ?s'] occ b pos
    by (simp add: level_basic_def size_dec_def is_occupied_def)
  have t: "tombstones sub + 1 =
      length (filter (\<lambda>s. state s = SLOT_TOMBSTONE) ((slots sub)[idx := ?s']))"
    using length_filter_update [OF idx_len, of "\<lambda>s. state s = SLOT_TOMBSTONE" ?s'] nt b
    by (simp add: level_basic_def)
  from b c t show ?thesis by (simp add: level_basic_def)
qed

lemma level_basic_update:
  assumes b: "level_basic sub" and idx: "idx < capacity sub"
    and occ: "is_occupied (slots sub ! idx)"
  shows "level_basic
           (sub\<lparr>slots := (slots sub)
                   [idx := (slots sub ! idx)\<lparr>val := Some v, value_len := length v\<rparr>]\<rparr>)"
proof -
  let ?s' = "(slots sub ! idx)\<lparr>val := Some v, value_len := length v\<rparr>"
  from b idx have idx_len: "idx < length (slots sub)" by (simp add: level_basic_def)
  have c: "count sub = length (filter is_occupied ((slots sub)[idx := ?s']))"
    using length_filter_update [OF idx_len, of is_occupied ?s'] occ b
    by (simp add: level_basic_def is_occupied_def)
  have t: "tombstones sub =
      length (filter (\<lambda>s. state s = SLOT_TOMBSTONE) ((slots sub)[idx := ?s']))"
    using length_filter_update [OF idx_len, of "\<lambda>s. state s = SLOT_TOMBSTONE" ?s'] b
    by (simp add: level_basic_def)
  from b c t show ?thesis by (simp add: level_basic_def)
qed

lemma basic_inv_update:
  assumes inv: "basic_inv t" and li: "li < length (levels t)"
    and ok': "level_basic sub'"
    and cap': "capacity sub' = capacity (levels t ! li)"
    and lv': "levels t' = (levels t)[li := sub']"
    and same: "num_levels t' = num_levels t" "min_level_size t' = min_level_size t"
      "total_capacity t' = total_capacity t"
    and cnt: "tcount t' + count (levels t ! li) = tcount t + count sub'"
  shows "basic_inv t'"
proof -
  have caps: "map capacity (levels t') = map capacity (levels t)"
    using li cap' by (simp add: lv' map_update list_update_same_conv)
  have oks: "\<forall>sub \<in> set (levels t'). level_basic sub"
    using inv ok' li by (auto simp: lv' basic_inv_def dest!: set_update_subset_insert [THEN subsetD])
  have "tcount t' = sum_list (map count (levels t'))"
    using sum_list_map_update [OF li, of count sub'] cnt inv
    by (simp add: lv' basic_inv_def)
  with inv caps oks same li show ?thesis
    by (simp add: basic_inv_def lv')
qed

lemma insert_levels_basic:
  assumes inv: "basic_inv t" and res: "insert_levels env t k v vlen li0 = Some t'"
  shows "basic_inv t' \<and> total_capacity t' = total_capacity t \<and>
         min_level_size t' = min_level_size t"
  using res
proof (induction "num_levels t - li0" arbitrary: li0)
  case 0
  then show ?case by (simp add: insert_levels_beyond)
next
  case (Suc n)
  from Suc.hyps(2) have li: "li0 < num_levels t" by simp
  let ?sub = "levels t ! li0"
  let ?h1 = "fst (dual_hash (the k) (level ?sub))" and ?h2 = "snd (dual_hash (the k) (level ?sub))"
  show ?case
  proof (cases "insert_probe ?sub ?h1 ?h2 (probe_budget env ?sub) 0")
    case None
    with Suc.prems li have "insert_levels env t k v vlen (li0 + 1) = Some t'"
      by (simp add: insert_levels_step)
    moreover from Suc.hyps(2) have "n = num_levels t - (li0 + 1)" by simp
    ultimately show ?thesis by (rule Suc.hyps(1) [rotated])
  next
    case (Some idx)
    let ?sub' = "claim_slot ?sub idx k v vlen"
    from Some Suc.prems li
    have t': "t' = t\<lparr>levels := (levels t)[li0 := ?sub'], tcount := tcount t + 1\<rparr>"
      by (simp add: insert_levels_step)
    from inv li have lil: "li0 < length (levels t)" and b: "level_basic ?sub"
      by (simp_all add: basic_inv_def)
    from insert_probe_Some [OF Some] obtain a where a: "a < probe_budget env ?sub"
      "idx = probe_idx ?h1 ?h2 a (capacity ?sub)" "state (slots ?sub ! idx) \<noteq> SLOT_OCCUPIED"
      by auto
    have idx: "idx < capacity ?sub"
      unfolding a(2) by (rule probe_idx_less [OF probe_budget_pos_cap [OF a(1)]])
    have b': "level_basic ?sub'" by (rule level_basic_claim [OF b idx a(3)])
    have "basic_inv t'"
      by (rule basic_inv_update [OF inv lil b']) (simp_all add: t')
    then show ?thesis by (simp add: t')
  qed
qed

lemma basic_inv_fresh:
  assumes "0 < min_level_size t" "0 < c" "layout_spec (min_level_size t) c = Some caps"
    and "levels t = init_list 0 caps" "num_levels t = length caps"
    and "tcount t = 0" "total_capacity t = c"
  shows "basic_inv t"
  by (rule table_inv_basic [OF table_inv_fresh [OF assms, of "\<lparr>budget_of = \<lambda>u c. None,
      load_limit = \<lambda>c. c, tomb_limit = \<lambda>c. c\<rparr>"]])

lemma reinsert_basic:
  assumes "ins_basic ins" "basic_inv t" "reinsert ins t es = Some t'"
  shows "basic_inv t' \<and> total_capacity t \<le> total_capacity t' \<and>
         min_level_size t' = min_level_size t"
  using assms(2,3)
proof (induction es arbitrary: t)
  case Nil
  then show ?case by simp
next
  case (Cons e es)
  from Cons.prems(2) obtain t1 where t1: "ins t e = Some t1" and rest: "reinsert ins t1 es = Some t'"
    by (auto split: option.splits)
  from assms(1) Cons.prems(1) t1
  have s1: "basic_inv t1 \<and> total_capacity t \<le> total_capacity t1 \<and>
      min_level_size t1 = min_level_size t"
    unfolding ins_basic_def by blast
  then have "basic_inv t1" ..
  from Cons.IH [OF this rest] s1 show ?case by simp
qed

lemma rebuild_with_basic:
  assumes ins: "ins_basic ins" and inv: "basic_inv t" and c: "0 < c"
    and res: "rebuild_with ins t c = Some t'"
  shows "basic_inv t' \<and> c \<le> total_capacity t' \<and> min_level_size t' = min_level_size t"
proof -
  let ?t1 = "t\<lparr>levels := [], num_levels := 0, tcount := 0, total_capacity := c\<rparr>"
  from inv have mls: "0 < min_level_size t" by (simp add: basic_inv_def)
  from layout_spec_total [OF mls] obtain caps
    where caps: "layout_spec (min_level_size t) c = Some caps" ..
  let ?t2 = "?t1\<lparr>num_levels := length caps, levels := init_list 0 caps\<rparr>"
  from caps have b: "build_levels ?t1 c = Some ?t2"
    by (intro build_levels_layout) simp
  with res have r: "reinsert ins ?t2 (collect t) = Some t'"
    by (simp add: rebuild_with_def Let_def)
  have inv2: "basic_inv ?t2"
    by (rule basic_inv_fresh [where c = c and caps = caps]) (use mls c caps in simp_all)
  from reinsert_basic [OF ins inv2 r] show ?thesis by simp
qed

lemma insert_owned_basic: "ins_basic (insert_owned env fuel)"
proof (induction fuel)
  case 0
  show ?case
    unfolding ins_basic_def
  proof (intro allI impI)
    fix t e t'
    assume inv: "basic_inv t" and res: "insert_owned env 0 t e = Some t'"
    obtain k v vlen where e: "e = (k, v, vlen)" by (cases e) auto
    from res have "insert_levels env t k v vlen 0 = Some t'" unfolding e by simp
    from insert_levels_basic [OF inv this]
    show "basic_inv t' \<and> total_capacity t \<le> total_capacity t' \<and>
        min_level_size t' = min_level_size t" by simp
  qed
next
  case (Suc fuel)
  show ?case
    unfolding ins_basic_def
  proof (intro allI impI)
    fix t e t'
    assume inv: "basic_inv t" and res: "insert_owned env (Suc fuel) t e = Some t'"
    obtain k v vlen where e: "e = (k, v, vlen)" by (cases e) auto
    show "basic_inv t' \<and> total_capacity t \<le> total_capacity t' \<and>
        min_level_size t' = min_level_size t"
    proof (cases "insert_levels env t k v vlen 0")
      case (Some t1)
      with res have "insert_levels env t k v vlen 0 = Some t'" unfolding e by simp
      from insert_levels_basic [OF inv this] show ?thesis by simp
    next
      case None
      from res have "(case rebuild_with (insert_owned env fuel) t (total_capacity t * 2) of
                None \<Rightarrow> None | Some t1 \<Rightarrow> insert_owned env fuel t1 e) = Some t'"
        unfolding e by (simp add: None)
      then obtain t1
        where t1: "rebuild_with (insert_owned env fuel) t (total_capacity t * 2) = Some t1"
          and t': "insert_owned env fuel t1 e = Some t'"
        by (cases "rebuild_with (insert_owned env fuel) t (total_capacity t * 2)") simp_all
      from inv have pos: "0 < total_capacity t * 2" by (simp add: basic_inv_def)
      from rebuild_with_basic [OF Suc.IH inv pos t1]
      have inv1: "basic_inv t1" and cap1: "total_capacity t * 2 \<le> total_capacity t1"
        and mls1: "min_level_size t1 = min_level_size t"
        by simp_all
      from Suc.IH inv1 t'
      have "basic_inv t' \<and> total_capacity t1 \<le> total_capacity t' \<and>
          min_level_size t' = min_level_size t1"
        unfolding ins_basic_def by blast
      with cap1 mls1 show ?thesis by simp
    qed
  qed
qed

lemma rebuild_basic:
  assumes "basic_inv t" "0 < c" "rebuild env fuel t c = Some t'"
  shows "basic_inv t' \<and> c \<le> total_capacity t' \<and> min_level_size t' = min_level_size t"
  using rebuild_with_basic [OF insert_owned_basic assms(1,2)] assms(3)
  by (simp add: rebuild_def)

lemma find_sound_basic:
  assumes inv: "basic_inv t" and found: "0 \<le> level_idx (find_key env t k)"
  shows "\<exists>li idx. find_key env t k = \<lparr>level_idx = int li, slot_idx = idx\<rparr> \<and>
           li < length (levels t) \<and> idx < capacity (levels t ! li) \<and>
           is_occupied (slots (levels t ! li) ! idx) \<and>
           key_matches (slots (levels t ! li) ! idx) k"
proof -
  from inv have nl: "num_levels t = length (levels t)"
    and oks: "\<forall>sub \<in> set (levels t). level_basic sub"
    by (simp_all add: basic_inv_def)
  have fs: "find_key env t k = find_spec env t k" by (rule find_key_refines [OF nl oks])
  let ?lvs = "zip [0..<num_levels t] (take (num_levels t) (levels t))"
  from found fs have "0 \<le> level_idx (first_level_spec env k ?lvs)" by (simp add: find_spec_def)
  from first_level_spec_sound [OF this] obtain li sub idx where
    mem: "(li, sub) \<in> set ?lvs"
    and res: "first_level_spec env k ?lvs = \<lparr>level_idx = int li, slot_idx = idx\<rparr>"
    and scan: "scan_spec (slots sub) k (probe_seq_spec env sub k) = Some idx"
    by blast
  from mem nl have li: "li < length (levels t)" and sub: "sub = levels t ! li"
    by (auto simp: in_set_zip)
  from scan_spec_Some [OF scan] have idx: "idx \<in> set (probe_seq_spec env sub k)"
    and occ: "is_occupied (slots sub ! idx)" and km: "key_matches (slots sub ! idx) k"
    by simp_all
  from probe_seq_less [OF idx] have idx_lt: "idx < capacity sub" .
  with res fs li occ km show ?thesis
    by (simp add: find_spec_def sub)
qed

lemma eht_insert_basic:
  assumes inv: "basic_inv t" and res: "eht_insert env fuel t k v = Some t'"
  shows "basic_inv t'"
proof (cases "0 \<le> level_idx (find_key env t k)")
  case True
  from find_sound_basic [OF inv True] obtain li idx where
    fr: "find_key env t k = \<lparr>level_idx = int li, slot_idx = idx\<rparr>"
    and li: "li < length (levels t)" and idx: "idx < capacity (levels t ! li)"
    and occ: "is_occupied (slots (levels t ! li) ! idx)"
    by blast
  let ?sub = "levels t ! li"
  let ?s' = "(slots ?sub ! idx)\<lparr>val := Some v, value_len := length v\<rparr>"
  let ?sub' = "?sub\<lparr>slots := (slots ?sub)[idx := ?s']\<rparr>"
  from res fr have t': "t' = set_slot t li idx ?s'"
    by (simp add: eht_insert_def Let_def slot_at_def)
  from inv li have b: "level_basic ?sub" by (simp add: basic_inv_def)
  have b': "level_basic ?sub'" by (rule level_basic_update [OF b idx occ])
  show ?thesis
    by (rule basic_inv_update [OF inv li b']) (simp_all add: t' set_slot_def)
next
  case nf: False
  from inv have pos: "0 < total_capacity t" by (simp add: basic_inv_def)
  define r1 where "r1 = (if load_limit env (total_capacity t) \<le> tcount t
      then rebuild env fuel t (total_capacity t * 2) else Some t)"
  from res nf obtain t1 where t1: "r1 = Some t1"
    by (cases r1) (simp_all add: eht_insert_def Let_def r1_def)
  define r2 where "r2 = (if tomb_limit env (total_capacity t1) \<le> total_ts t1
      then rebuild env fuel t1 (total_capacity t1) else Some t1)"
  from res nf t1 obtain t2 where t2: "r2 = Some t2"
    by (cases r2) (simp_all add: eht_insert_def Let_def r1_def [symmetric] r2_def)
  from res nf t1 t2
  have io: "insert_owned env fuel t2 (Some (cstr k), Some v, length v) = Some t'"
    by (simp add: eht_insert_def Let_def r1_def [symmetric] r2_def [symmetric])
  have inv1: "basic_inv t1"
  proof (cases "load_limit env (total_capacity t) \<le> tcount t")
    case True
    with t1 have "rebuild env fuel t (total_capacity t * 2) = Some t1" by (simp add: r1_def)
    from rebuild_basic [OF inv _ this] pos show ?thesis by simp
  next
    case False
    with t1 inv show ?thesis by (simp add: r1_def)
  qed
  then have pos1: "0 < total_capacity t1" by (simp add: basic_inv_def)
  have inv2: "basic_inv t2"
  proof (cases "tomb_limit env (total_capacity t1) \<le> total_ts t1")
    case True
    with t2 have "rebuild env fuel t1 (total_capacity t1) = Some t2" by (simp add: r2_def)
    from rebuild_basic [OF inv1 pos1 this] show ?thesis by simp
  next
    case False
    with t2 inv1 show ?thesis by (simp add: r2_def)
  qed
  from insert_owned_basic [of env fuel] inv2 io show ?thesis
    unfolding ins_basic_def by blast
qed

lemma eht_delete_basic:
  assumes inv: "basic_inv t" and res: "eht_delete env t k = (r, t')"
  shows "basic_inv t'"
proof (cases "0 \<le> level_idx (find_key env t k)")
  case False
  from eht_delete_absent [OF False] res inv show ?thesis by simp
next
  case True
  from find_sound_basic [OF inv True] obtain li idx where
    fr: "find_key env t k = \<lparr>level_idx = int li, slot_idx = idx\<rparr>"
    and li: "li < length (levels t)" and idx: "idx < capacity (levels t ! li)"
    and occ: "is_occupied (slots (levels t ! li) ! idx)"
    by blast
  let ?sub = "levels t ! li"
  let ?s' = "(slot_free_data (slots ?sub ! idx))\<lparr>state := SLOT_TOMBSTONE\<rparr>"
  let ?sub' = "?sub\<lparr>slots := (slots ?sub)[idx := ?s'], count := size_dec (count ?sub),
                     tombstones := tombstones ?sub + 1\<rparr>"
  from fr res have t': "t' = t\<lparr>levels := (levels t)[li := ?sub'], tcount := size_dec (tcount t)\<rparr>"
    by (simp add: eht_delete_def Let_def)
  from inv li have b: "level_basic ?sub" by (simp add: basic_inv_def)
  from b idx have idx_len: "idx < length (slots ?sub)" by (simp add: level_basic_def)
  from b length_filter_pos [OF idx_len, of is_occupied] occ
  have cpos: "0 < count ?sub" by (simp add: level_basic_def)
  from inv li have "tcount t = sum_list (map count (levels t))" by (simp add: basic_inv_def)
  moreover have "count ?sub \<le> sum_list (map count (levels t))"
    using li by (intro member_le_sum_list) simp_all
  ultimately have tpos: "0 < tcount t" using cpos by simp
  have b': "level_basic ?sub'" by (rule level_basic_delete [OF b idx occ])
  show ?thesis
    by (rule basic_inv_update [OF inv li b']) (use cpos tpos in \<open>simp_all add: t' size_dec_def\<close>)
qed

lemma reachable_basic:
  assumes "reachable env t"
  shows "basic_inv t"
  using assms
proof (induction rule: reachable.induct)
  case (r_create c t)
  then show ?case by (intro table_inv_basic [OF eht_create_inv])
next
  case (r_insert t fuel k v t')
  from eht_insert_basic [OF r_insert.IH r_insert.hyps(2)] show ?case .
next
  case (r_delete t k r t')
  from eht_delete_basic [OF r_delete.IH r_delete.hyps(2)] show ?case .
next
  case (r_grow t fuel t')
  from r_grow.IH have "0 < total_capacity t * 2" by (simp add: basic_inv_def)
  from rebuild_basic [OF r_grow.IH this r_grow.hyps(2)] show ?case ..
next
  case (r_compact t fuel t')
  from r_compact.IH have "0 < total_capacity t" by (simp add: basic_inv_def)
  from rebuild_basic [OF r_compact.IH this r_compact.hyps(2)] show ?case ..
qed

section \<open>Insertion returns\<close>

lemma layout_spec_length:
  assumes "layout_spec mls c = Some caps" "mls * 2 ^ k < c"
  shows "k < length caps"
  using assms
proof (induction k arbitrary: c caps)
  case 0
  from layout_spec_ne [OF "0.prems"(1)] show ?case by simp
next
  case (Suc k)
  define x where "x = mls * 2 ^ k"
  from Suc.prems(2) have x2: "2 * x < c" by (simp add: x_def)
  have "mls \<le> x" by (simp add: x_def)
  with x2 have big: "2 * mls < c" by simp
  with layout_spec_cases [OF Suc.prems(1)] obtain rest where
    caps: "caps = c div 2 # rest" and rest: "layout_spec mls (c - c div 2) = Some rest"
    by auto
  from x2 have "x < c - c div 2" by arith
  then have "mls * 2 ^ k < c - c div 2" by (simp add: x_def)
  from Suc.IH [OF rest this] caps show ?case by simp
qed

lemma layout_spec_caps_pos:
  assumes "layout_spec mls c = Some caps" "0 < c" "0 < mls"
  shows "\<forall>x \<in> set caps. 0 < x"
  using assms(1,2)
proof (induction caps arbitrary: c)
  case Nil
  then show ?case by simp
next
  case (Cons x rest)
  from layout_spec_cases [OF Cons.prems(1)] show ?case
  proof
    assume "c \<le> 2 * mls \<and> x # rest = [c]"
    with Cons.prems(2) show ?thesis by simp
  next
    assume "2 * mls < c \<and> (\<exists>rest'. x # rest = c div 2 # rest' \<and>
        layout_spec mls (c - c div 2) = Some rest')"
    then have big: "2 * mls < c" and x: "x = c div 2"
      and rest: "layout_spec mls (c - c div 2) = Some rest" by auto
    from big assms(3) have "0 < x" "0 < c - c div 2" unfolding x by simp_all
    with Cons.IH [OF rest] show ?thesis by simp
  qed
qed

lemma insert_probe_None:
  assumes "insert_probe sub h1 h2 budget 0 = None" "0 < budget"
  shows "state (slots sub ! probe_idx h1 h2 0 (capacity sub)) = SLOT_OCCUPIED"
proof (rule ccontr)
  assume "state (slots sub ! probe_idx h1 h2 0 (capacity sub)) \<noteq> SLOT_OCCUPIED"
  then have "state (slots sub ! probe_idx h1 h2 0 (capacity sub)) = SLOT_EMPTY \<or>
      state (slots sub ! probe_idx h1 h2 0 (capacity sub)) = SLOT_TOMBSTONE"
    by (cases "state (slots sub ! probe_idx h1 h2 0 (capacity sub))") simp_all
  with assms show False
    by (subst (asm) insert_probe.simps) (simp add: Let_def)
qed

lemma insert_levels_None:
  assumes "insert_levels env t k v vlen li0 = None" "li0 \<le> li" "li < num_levels t"
  shows "insert_probe (levels t ! li) (fst (dual_hash (the k) (level (levels t ! li))))
           (snd (dual_hash (the k) (level (levels t ! li))))
           (probe_budget env (levels t ! li)) 0 = None"
  using assms
proof (induction "li - li0" arbitrary: li0)
  case 0
  then have "li0 = li" by simp
  with "0.prems" show ?case by (simp add: insert_levels_step split: option.splits)
next
  case (Suc n)
  then have lt: "li0 < num_levels t" by simp
  with Suc.prems(1) have "insert_levels env t k v vlen (li0 + 1) = None"
    by (simp add: insert_levels_step split: option.splits)
  moreover from Suc.hyps(2) have "n = li - (li0 + 1)" "li0 + 1 \<le> li" by simp_all
  ultimately show ?case using Suc.hyps(1) Suc.prems(3) by blast
qed

lemma length_le_sum_list:
  "\<forall>x \<in> set xs. 1 \<le> f x \<Longrightarrow> length xs \<le> sum_list (map f xs)" for f :: "'a \<Rightarrow> nat"
  by (induction xs) (auto simp: add_mono)

lemma insert_levels_room:
  assumes inv: "basic_inv t" and pos: "budget_pos env"
    and room: "tcount t < num_levels t"
  shows "\<exists>t'. insert_levels env t k v vlen 0 = Some t'"
proof (rule ccontr)
  assume "\<not> ?thesis"
  then have none: "insert_levels env t k v vlen 0 = None" by simp
  from inv have nl: "num_levels t = length (levels t)"
    and lay: "layout_spec (min_level_size t) (total_capacity t) = Some (map capacity (levels t))"
    and mls: "0 < min_level_size t" and cap: "0 < total_capacity t"
    and tc: "tcount t = sum_list (map count (levels t))"
    by (simp_all add: basic_inv_def)
  have "1 \<le> count sub" if sub: "sub \<in> set (levels t)" for sub
  proof -
    from sub obtain li where li: "li < length (levels t)" "sub = levels t ! li"
      by (auto simp: in_set_conv_nth)
    from layout_spec_caps_pos [OF lay cap mls] sub have cpos: "0 < capacity sub" by simp
    with pos have bpos: "0 < probe_budget env sub"
      by (simp add: budget_pos_def probe_budget_eq)
    let ?idx = "probe_idx (fst (dual_hash (the k) (level sub))) (snd (dual_hash (the k) (level sub)))
        0 (capacity sub)"
    from insert_levels_None [OF none _ li(1) [folded nl]] li(2)
    have "insert_probe sub (fst (dual_hash (the k) (level sub)))
        (snd (dual_hash (the k) (level sub))) (probe_budget env sub) 0 = None" by simp
    from insert_probe_None [OF this bpos] have occ: "is_occupied (slots sub ! ?idx)"
      by (simp add: is_occupied_def)
    from inv sub have b: "level_basic sub" by (simp add: basic_inv_def)
    then have "?idx < length (slots sub)"
      using probe_idx_less [OF cpos] by (simp add: level_basic_def)
    from length_filter_pos [OF this, of is_occupied] occ b show ?thesis
      by (simp add: level_basic_def Suc_le_eq)
  qed
  then have "length (levels t) \<le> sum_list (map count (levels t))"
    by (intro length_le_sum_list) simp
  with tc nl room show False by simp
qed

lemma insert_levels_tcount:
  "insert_levels env t k v vlen li0 = Some t' \<Longrightarrow> tcount t' = tcount t + 1"
proof (induction "num_levels t - li0" arbitrary: li0)
  case 0
  then show ?case by (simp add: insert_levels_beyond)
next
  case (Suc n)
  from Suc.hyps(2) have li: "li0 < num_levels t" by simp
  show ?case
  proof (cases "insert_probe (levels t ! li0) (fst (dual_hash (the k) (level (levels t ! li0))))
      (snd (dual_hash (the k) (level (levels t ! li0)))) (probe_budget env (levels t ! li0)) 0")
    case None
    with Suc.prems li have "insert_levels env t k v vlen (li0 + 1) = Some t'"
      by (simp add: insert_levels_step)
    moreover from Suc.hyps(2) have "n = num_levels t - (li0 + 1)" by simp
    ultimately show ?thesis by (rule Suc.hyps(1) [rotated])
  next
    case (Some idx)
    with Suc.prems li show ?thesis by (auto simp: insert_levels_step)
  qed
qed

lemma tcount_collect_basic:
  assumes inv: "basic_inv t"
  shows "tcount t = length (collect t)"
proof -
  have "\<And>sub. sub \<in> set (levels t) \<Longrightarrow> count sub = length (level_entries sub)"
    using inv by (auto simp: basic_inv_def level_basic_def level_entries_eq slot_entries_def)
  then have "map count (levels t) = map (\<lambda>sub. length (level_entries sub)) (levels t)"
    by simp
  then have "sum_list (map count (levels t)) =
      sum_list (map (\<lambda>sub. length (level_entries sub)) (levels t))"
    by (rule arg_cong [where f = sum_list])
  moreover from inv have "take (num_levels t) (levels t) = levels t" by (simp add: basic_inv_def)
  moreover from inv have "tcount t = sum_list (map count (levels t))" by (simp add: basic_inv_def)
  ultimately show ?thesis
    by (simp add: collect_def length_concat comp_def)
qed

lemma scale_bound:
  "m * 2 ^ n < c * 2 ^ j \<Longrightarrow> c \<le> c' \<Longrightarrow> m * 2 ^ n < c' * 2 ^ j" for m c c' :: nat
  by (erule less_le_trans) (rule mult_le_mono1)

lemma reinsert_total:
  assumes ins: "ins_total n j ins"
  shows "basic_inv t \<Longrightarrow> tcount t + length es \<le> n \<Longrightarrow>
         min_level_size t * 2 ^ n < total_capacity t * 2 ^ j \<Longrightarrow>
         \<exists>t'. reinsert ins t es = Some t' \<and> basic_inv t' \<and>
              tcount t' = tcount t + length es \<and>
              total_capacity t \<le> total_capacity t' \<and>
              min_level_size t' = min_level_size t"
proof (induction es arbitrary: t)
  case Nil
  then show ?case by simp
next
  case (Cons e es)
  from Cons.prems(2) have lt: "tcount t < n" by simp
  from ins Cons.prems(1) lt Cons.prems(3) obtain t1 where
    t1: "ins t e = Some t1" "basic_inv t1" "tcount t1 = tcount t + 1"
    "total_capacity t \<le> total_capacity t1" "min_level_size t1 = min_level_size t"
    unfolding ins_total_def by blast
  have b1: "min_level_size t1 * 2 ^ n < total_capacity t1 * 2 ^ j"
    unfolding t1(5) by (rule scale_bound [OF Cons.prems(3) t1(4)])
  from Cons.prems(2) t1(3) have "tcount t1 + length es \<le> n" by simp
  from Cons.IH [OF t1(2) this b1] obtain t' where
    "reinsert ins t1 es = Some t'" "basic_inv t'" "tcount t' = tcount t1 + length es"
    "total_capacity t1 \<le> total_capacity t'" "min_level_size t' = min_level_size t1"
    by blast
  with t1 show ?case by simp
qed

lemma rebuild_with_total:
  assumes ins: "ins_total n j ins" and inv: "basic_inv t" and le: "tcount t \<le> n"
    and c: "0 < c" and big: "min_level_size t * 2 ^ n < c * 2 ^ j"
  shows "\<exists>t'. rebuild_with ins t c = Some t' \<and> basic_inv t' \<and> tcount t' = tcount t \<and>
              c \<le> total_capacity t' \<and> min_level_size t' = min_level_size t"
proof -
  let ?t1 = "t\<lparr>levels := [], num_levels := 0, tcount := 0, total_capacity := c\<rparr>"
  from inv have mls: "0 < min_level_size t" by (simp add: basic_inv_def)
  from layout_spec_total [OF mls] obtain caps
    where caps: "layout_spec (min_level_size t) c = Some caps" ..
  let ?t2 = "?t1\<lparr>num_levels := length caps, levels := init_list 0 caps\<rparr>"
  from caps have b: "build_levels ?t1 c = Some ?t2"
    by (intro build_levels_layout) simp
  have inv2: "basic_inv ?t2"
    by (rule basic_inv_fresh [where c = c and caps = caps]) (use mls c caps in simp_all)
  have "\<exists>t'. reinsert ins ?t2 (collect t) = Some t' \<and> basic_inv t' \<and>
      tcount t' = tcount ?t2 + length (collect t) \<and>
      total_capacity ?t2 \<le> total_capacity t' \<and> min_level_size t' = min_level_size ?t2"
    by (rule reinsert_total [OF ins inv2]) (use le big tcount_collect_basic [OF inv] in simp_all)
  with b tcount_collect_basic [OF inv] show ?thesis
    by (simp add: rebuild_with_def Let_def)
qed

lemma insert_owned_total:
  assumes pos: "budget_pos env"
  shows "ins_total n j (insert_owned env j)"
proof (induction j)
  case 0
  show ?case
    unfolding ins_total_def
  proof (intro allI impI)
    fix t :: ElasticHashTable and e :: entry
    assume inv: "basic_inv t" and lt: "tcount t < n"
      and big: "min_level_size t * 2 ^ n < total_capacity t * 2 ^ 0"
    obtain k v vlen where e: "e = (k, v, vlen)" by (cases e) auto
    from inv have lay: "layout_spec (min_level_size t) (total_capacity t) =
        Some (map capacity (levels t))" and nl: "num_levels t = length (levels t)"
      by (simp_all add: basic_inv_def)
    from big layout_spec_length [OF lay, of n] nl lt have "tcount t < num_levels t" by simp
    from insert_levels_room [OF inv pos this] obtain t'
      where t': "insert_levels env t k v vlen 0 = Some t'" ..
    from insert_levels_basic [OF inv t'] insert_levels_tcount [OF t'] t'
    show "\<exists>t'. insert_owned env 0 t e = Some t' \<and> basic_inv t' \<and> tcount t' = tcount t + 1 \<and>
        total_capacity t \<le> total_capacity t' \<and> min_level_size t' = min_level_size t"
      by (simp add: e)
  qed
next
  case (Suc j)
  show ?case
    unfolding ins_total_def
  proof (intro allI impI)
    fix t :: ElasticHashTable and e :: entry
    assume inv: "basic_inv t" and lt: "tcount t < n"
      and big: "min_level_size t * 2 ^ n < total_capacity t * 2 ^ Suc j"
    obtain k v vlen where e: "e = (k, v, vlen)" by (cases e) auto
    show "\<exists>t'. insert_owned env (Suc j) t e = Some t' \<and> basic_inv t' \<and>
        tcount t' = tcount t + 1 \<and> total_capacity t \<le> total_capacity t' \<and>
        min_level_size t' = min_level_size t"
    proof (cases "insert_levels env t k v vlen 0")
      case (Some t')
      from insert_levels_basic [OF inv Some] insert_levels_tcount [OF Some] Some
      show ?thesis by (simp add: e)
    next
      case None
      from inv have pos_c: "0 < total_capacity t * 2" by (simp add: basic_inv_def)
      from big have big2: "min_level_size t * 2 ^ n < total_capacity t * 2 * 2 ^ j"
        by (simp add: mult.assoc)
      from lt have le: "tcount t \<le> n" by simp
      from rebuild_with_total [OF Suc.IH inv le pos_c big2] obtain t1 where
        t1: "rebuild_with (insert_owned env j) t (total_capacity t * 2) = Some t1"
        "basic_inv t1" "tcount t1 = tcount t" "total_capacity t * 2 \<le> total_capacity t1"
        "min_level_size t1 = min_level_size t"
        by blast
      have big1: "min_level_size t1 * 2 ^ n < total_capacity t1 * 2 ^ j"
        unfolding t1(5) by (rule scale_bound [OF big2 t1(4)])
      from lt t1(3) have lt1: "tcount t1 < n" by simp
      from Suc.IH t1(2) lt1 big1 obtain t' where
        "insert_owned env j t1 e = Some t'" "basic_inv t'" "tcount t' = tcount t1 + 1"
        "total_capacity t1 \<le> total_capacity t'" "min_level_size t' = min_level_size t1"
        unfolding ins_total_def by blast
      with None t1 show ?thesis by (simp add: e)
    qed
  qed
qed

lemma eht_insert_total:
  assumes pos: "budget_pos env" and inv: "basic_inv t"
  shows "\<exists>fuel t'. eht_insert env fuel t k v = Some t'"
proof (cases "0 \<le> level_idx (find_key env t k)")
  case True
  then show ?thesis by (simp add: eht_insert_def Let_def)
next
  case nf: False
  define n where "n = tcount t + 1"
  define j where "j = n + min_level_size t"
  let ?e = "(Some (cstr k), Some v, length v)"
  note tot = insert_owned_total [OF pos, of n j]
  from inv have cpos: "0 < total_capacity t" by (simp add: basic_inv_def)
  have "min_level_size t < 2 ^ min_level_size t" by (rule less_exp)
  then have "min_level_size t * 2 ^ n < 2 ^ min_level_size t * 2 ^ n" by simp
  also have "\<dots> = 2 ^ j" by (simp add: j_def power_add)
  also from cpos have "\<dots> \<le> total_capacity t * 2 ^ j" by simp
  finally have big: "min_level_size t * 2 ^ n < total_capacity t * 2 ^ j" .
  have s1: "\<exists>t1. (if load_limit env (total_capacity t) \<le> tcount t
        then rebuild env j t (total_capacity t * 2) else Some t) = Some t1 \<and>
      basic_inv t1 \<and> tcount t1 = tcount t \<and> total_capacity t \<le> total_capacity t1 \<and>
      min_level_size t1 = min_level_size t"
  proof (cases "load_limit env (total_capacity t) \<le> tcount t")
    case True
    from big have "min_level_size t * 2 ^ n < total_capacity t * 2 * 2 ^ j" by simp
    from rebuild_with_total [OF tot inv _ _ this] cpos True show ?thesis
      by (auto simp: rebuild_def n_def)
  next
    case False
    with inv show ?thesis by simp
  qed
  then obtain t1 where t1: "(if load_limit env (total_capacity t) \<le> tcount t
        then rebuild env j t (total_capacity t * 2) else Some t) = Some t1"
    "basic_inv t1" "tcount t1 = tcount t" "total_capacity t \<le> total_capacity t1"
    "min_level_size t1 = min_level_size t" by blast
  have big1: "min_level_size t1 * 2 ^ n < total_capacity t1 * 2 ^ j"
    unfolding t1(5) by (rule scale_bound [OF big t1(4)])
  from t1(2) have cpos1: "0 < total_capacity t1" by (simp add: basic_inv_def)
  have s2: "\<exists>t2. (if tomb_limit env (total_capacity t1) \<le> total_ts t1
        then rebuild env j t1 (total_capacity t1) else Some t1) = Some t2 \<and>
      basic_inv t2 \<and> tcount t2 = tcount t1 \<and> total_capacity t1 \<le> total_capacity t2 \<and>
      min_level_size t2 = min_level_size t1"
  proof (cases "tomb_limit env (total_capacity t1) \<le> total_ts t1")
    case True
    from rebuild_with_total [OF tot t1(2) _ cpos1 big1] t1(3) True show ?thesis
      by (auto simp: rebuild_def n_def)
  next
    case False
    with t1(2) show ?thesis by simp
  qed
  then obtain t2 where t2: "(if tomb_limit env (total_capacity t1) \<le> total_ts t1
        then rebuild env j t1 (total_capacity t1) else Some t1) = Some t2"
    "basic_inv t2" "tcount t2 = tcount t1" "total_capacity t1 \<le> total_capacity t2"
    "min_level_size t2 = min_level_size t1" by blast
  have big2: "min_level_size t2 * 2 ^ n < total_capacity t2 * 2 ^ j"
    unfolding t2(5) by (rule scale_bound [OF big1 t2(4)])
  from t1(3) t2(3) have lt2: "tcount t2 < n" by (simp add: n_def)
  from tot t2(2) lt2 big2 obtain t' where "insert_owned env j t2 ?e = Some t'"
    unfolding ins_total_def by blast
  with nf t1(1) t2(1) have "eht_insert env j t k v = Some t'"
    by (simp add: eht_insert_def Let_def)
  then show ?thesis by blast
qed

section \<open>Keys held by a table\<close>

lemma holds_key_iff:
  assumes inv: "table_inv env t"
  shows "holds_key t k \<longleftrightarrow> 0 \<le> level_idx (find_key env t k)"
proof
  assume "holds_key t k"
  then obtain li idx where li: "li < num_levels t" and idx: "idx < capacity (levels t ! li)"
    and occ: "is_occupied (slots (levels t ! li) ! idx)"
    and km: "key_matches (slots (levels t ! li) ! idx) k"
    by (auto simp: holds_key_def)
  let ?s = "slots (levels t ! li) ! idx"
  from inv have nl: "num_levels t = length (levels t)" by (simp add: table_inv_def)
  with li have lil: "li < length (levels t)" by simp
  from table_inv_level [OF inv lil] have ok: "level_ok env (levels t ! li)" .
  then have len: "length (slots (levels t ! li)) = capacity (levels t ! li)"
    by (simp add: level_ok_def)
  from ok idx occ have "entry_ok (key ?s, val ?s, value_len ?s)" by (simp add: level_ok_def)
  with km have "key ?s = Some (cstr k)"
    by (auto simp: entry_ok_def key_matches_def split: option.splits)
  with collect_mem [OF nl lil len idx occ] have "Some (cstr k) \<in> fst ` set (collect t)"
    by force
  then show "0 \<le> level_idx (find_key env t k)" by (rule find_complete [OF inv])
next
  assume "0 \<le> level_idx (find_key env t k)"
  from find_sound_basic [OF table_inv_basic [OF inv] this] inv show "holds_key t k"
    by (auto simp: holds_key_def table_inv_def)
qed

lemma holds_key_contents:
  assumes inv: "table_inv env t"
  shows "holds_key t k \<longleftrightarrow> contents t k \<noteq> None"
proof -
  have "eht_contains env t k = (if holds_key t k then 1 else 0)"
    by (simp add: eht_contains_def holds_key_iff [OF inv])
  with eht_contains_contents [OF inv, of k] show ?thesis by (auto split: if_splits)
qed

lemma eht_insert_len:
  assumes inv: "table_inv env t" and mono: "budget_mono env"
    and res: "eht_insert env fuel t k v = Some t'"
  shows "tcount t' = (if holds_key t k then tcount t else tcount t + 1)"
proof (cases "0 \<le> level_idx (find_key env t k)")
  case True
  from eht_insert_found [OF inv True res] obtain li idx where
    "t' = set_slot t li idx ((slots (levels t ! li) ! idx)\<lparr>val := Some v, value_len := length v\<rparr>)"
    by blast
  then have "tcount t' = tcount t" by (simp add: set_slot_def)
  with True holds_key_iff [OF inv, of k] show ?thesis by simp
next
  case False
  let ?e = "(Some (cstr k), Some v, length v)"
  from eht_insert_new [OF inv mono False res]
  have inv': "table_inv env t'" and fresh: "Some (cstr k) \<notin> fst ` set (collect t)"
    and s: "set (collect t') = insert ?e (set (collect t))"
    by simp_all
  from fresh have "?e \<notin> set (collect t)" by force
  with s have "card (set (collect t')) = card (set (collect t)) + 1" by simp
  with tcount_card [OF inv] tcount_card [OF inv'] False holds_key_iff [OF inv, of k]
  show ?thesis by simp
qed

lemma set_slot_counters:
  assumes "li < length (levels t)"
  shows "tcount (set_slot t li idx s) = tcount t"
    "total_capacity (set_slot t li idx s) = total_capacity t"
    "num_levels (set_slot t li idx s) = num_levels t"
    "map count (levels (set_slot t li idx s)) = map count (levels t)"
    "map tombstones (levels (set_slot t li idx s)) = map tombstones (levels t)"
    "map capacity (levels (set_slot t li idx s)) = map capacity (levels t)"
  using assms by (simp_all add: set_slot_def map_update list_update_same_conv)

section \<open>Sample tables\<close>

lemma clamped_budget_env0:
  "clamped_budget env0 used cap = (if cap \<le> used then cap else min 4 cap)"
  by (simp add: clamped_budget_def env0_def)

lemma budget_mono_env0: "budget_mono env0"
  by (simp add: budget_mono_def clamped_budget_env0)

lemma budget_mono_env1: "budget_mono env1"
  by (simp add: budget_mono_def clamped_budget_def env1_def env0_def)

lemma create64: "eht_create 64 = Some tbl0"
proof -
  have "layout_spec 16 64 = Some [32, 32]" by (simp add: layout_spec.simps)
  then have "layout_spec (min_level_size \<lparr>total_capacity = 64, tcount = 0, num_levels = 0,
      min_level_size = 16, levels = []\<rparr>) 64 = Some [32, 32]" by simp
  from build_levels_layout [OF this] show ?thesis by (simp add: eht_create_def tbl0_def)
qed

lemma create65: "eht_create 65 = Some tbl65"
proof -
  have "layout_spec 16 65 = Some [32, 16, 17]" by (simp add: layout_spec.simps)
  then have "layout_spec (min_level_size \<lparr>total_capacity = 65, tcount = 0, num_levels = 0,
      min_level_size = 16, levels = []\<rparr>) 65 = Some [32, 16, 17]" by simp
  from build_levels_layout [OF this] show ?thesis by (simp add: eht_create_def tbl65_def)
qed

lemma reach_tbl0: "reachable env tbl0"
  by (rule r_create [OF create64])

lemma reach_tbl65: "reachable env tbl65"
  by (rule r_create [OF create65])

lemma find_tbl0: "find_key env tbl0 k = \<lparr>level_idx = - 1, slot_idx = 0\<rparr>"
  by (simp add: find_key_def find_levels.simps tbl0_def init_list_def subarray_init_def)

lemma hash_k0: "dual_hash key_k 0 = (12638375217044066077, 12638389510695232821)"
  by (simp add: dual_hash_def fnv1a_salted_def key_k_def)

lemma hash_j0: "dual_hash key_j 0 = (12638374117532437866, 12638390610206861031)"
  by (simp add: dual_hash_def fnv1a_salted_def key_j_def)

lemma levels_tbl0:
  "levels tbl0 ! 0 = subarray_init 0 32" "levels tbl0 ! Suc 0 = subarray_init 1 32"
  "num_levels tbl0 = 2" "total_capacity tbl0 = 64" "tcount tbl0 = 0"
  "length (levels tbl0) = 2"
  by (simp_all add: tbl0_def init_list_def)

lemma insert_tbl0:
  assumes "load_limit env 64 \<noteq> 0" "tomb_limit env 64 \<noteq> 0" "budget_of env 0 32 = Some 4"
  shows "eht_insert env 0 tbl0 key_k [1, 2, 3] = Some tbl1"
proof -
  have "insert_probe (subarray_init 0 32) 12638375217044066077 12638389510695232821 4 0 = Some 29"
    by (simp add: insert_probe.simps probe_idx_def subarray_init_def empty_slot_def)
  then have "insert_levels env tbl0 (Some key_k) (Some [1, 2, 3]) 3 0 = Some tbl1"
    using assms(3)
    by (simp add: insert_levels_step levels_tbl0 hash_k0 probe_budget_def tbl1_def
        subarray_init_def)
  moreover have "cstr key_k = key_k" by (simp add: cstr_def key_k_def)
  moreover have "total_ts tbl0 = 0"
    by (simp add: total_ts_def tbl0_def init_list_def subarray_init_def)
  ultimately show ?thesis
    using assms(1,2)
    by (simp add: eht_insert_def find_tbl0 Let_def levels_tbl0 numeral_3_eq_3 [symmetric])
qed

lemma insert_tbl0_env0: "eht_insert env0 0 tbl0 key_k [1, 2, 3] = Some tbl1"
  by (rule insert_tbl0) (simp_all add: env0_def)

lemma insert_tbl0_env1: "eht_insert env1 0 tbl0 key_k [1, 2, 3] = Some tbl1"
  by (rule insert_tbl0) (simp_all add: env1_def env0_def)

lemma reach_tbl1_env0: "reachable env0 tbl1"
  by (rule r_insert [OF reach_tbl0 insert_tbl0_env0])

lemma reach_tbl1_env1: "reachable env1 tbl1"
  by (rule r_insert [OF reach_tbl0 insert_tbl0_env1])

lemma levels_tbl1:
  "levels tbl1 ! 0 =
     \<lparr>level = 0, capacity = 32, count = 1, tombstones = 0,
      slots = (replicate 32 empty_slot)
        [29 := \<lparr>key = Some key_k, val = Some [1, 2, 3], value_len = 3,
                 state = SLOT_OCCUPIED\<rparr>]\<rparr>"
  "levels tbl1 ! Suc 0 = subarray_init 1 32"
  "num_levels tbl1 = 2" "total_capacity tbl1 = 64" "tcount tbl1 = 1"
  "length (levels tbl1) = 2"
  by (simp_all add: tbl1_def levels_tbl0 subarray_init_def empty_slot_def)

lemma find_tbl1_k:
  assumes "budget_of env 1 32 = Some 4"
  shows "find_key env tbl1 key_k = \<lparr>level_idx = 0, slot_idx = 29\<rparr>"
proof -
  have "find_probe (levels tbl1 ! 0) key_k 12638375217044066077 12638389510695232821 4 0 = Some 29"
    by (simp add: find_probe.simps levels_tbl1 probe_idx_def key_matches_def)
  then show ?thesis
    using assms
    by (simp add: find_key_def find_levels.simps [of _ _ _ 0] levels_tbl1 hash_k0
        probe_budget_def)
qed

lemma find_tbl1_j:
  assumes "budget_of env 1 32 = Some 4"
  shows "find_key env tbl1 key_j = \<lparr>level_idx = - 1, slot_idx = 0\<rparr>"
proof -
  have "find_probe (levels tbl1 ! 0) key_j 12638374117532437866 12638390610206861031 4 0 = None"
    by (simp add: find_probe.simps levels_tbl1 probe_idx_def empty_slot_def)
  then show ?thesis
    using assms
    by (simp add: find_key_def find_levels.simps levels_tbl1 hash_j0
        probe_budget_def subarray_init_def)
qed

lemma budget_pos_env0: "budget_pos env0"
  by (simp add: budget_pos_def clamped_budget_env0)

lemma budget_pos_env1: "budget_pos env1"
  by (simp add: budget_pos_def clamped_budget_def env1_def env0_def)

lemma slot29_tbl1:
  "slots (levels tbl1 ! 0) ! 29 =
     \<lparr>key = Some key_k, val = Some [1, 2, 3], value_len = 3, state = SLOT_OCCUPIED\<rparr>"
  by (simp add: levels_tbl1)

lemma insert_tbl1_k: "eht_insert env0 0 tbl1 key_k [7] = Some tbl1a"
  using find_tbl1_k [of env0]
  by (simp add: eht_insert_def Let_def slot_at_def slot29_tbl1 tbl1a_def env0_def)

lemma levels_tbl1a:
  "levels tbl1a ! 0 =
     \<lparr>level = 0, capacity = 32, count = 1, tombstones = 0,
      slots = (replicate 32 empty_slot)
        [29 := \<lparr>key = Some key_k, val = Some [7], value_len = 1, state = SLOT_OCCUPIED\<rparr>]\<rparr>"
  "num_levels tbl1a = 2" "tcount tbl1a = 1" "length (levels tbl1a) = 2"
  by (simp_all add: tbl1a_def set_slot_def levels_tbl1)

lemma find_tbl1a_k: "find_key env0 tbl1a key_k = \<lparr>level_idx = 0, slot_idx = 29\<rparr>"
proof -
  have "find_probe (levels tbl1a ! 0) key_k 12638375217044066077 12638389510695232821 4 0 = Some 29"
    by (simp add: find_probe.simps levels_tbl1a probe_idx_def key_matches_def)
  then show ?thesis
    by (simp add: find_key_def find_levels.simps [of _ _ _ 0] levels_tbl1a hash_k0
        probe_budget_def env0_def)
qed

lemma insert_tbl1a_k: "eht_insert env0 0 tbl1a key_k [8] = Some tbl1b"
  using find_tbl1a_k
  by (simp add: eht_insert_def Let_def slot_at_def levels_tbl1a tbl1b_def)

lemma holds_tbl1_k: "holds_key tbl1 key_k"
proof -
  have "is_occupied (slots (levels tbl1 ! 0) ! 29) \<and>
      key_matches (slots (levels tbl1 ! 0) ! 29) key_k"
    by (simp add: slot29_tbl1 is_occupied_def key_matches_def)
  moreover have "(0::nat) < num_levels tbl1" "29 < capacity (levels tbl1 ! 0)"
    by (simp_all add: levels_tbl1)
  ultimately show ?thesis unfolding holds_key_def by blast
qed

lemma not_holds_tbl1_j: "\<not> holds_key tbl1 key_j"
proof -
  have "key_matches (slots (levels tbl1 ! li) ! idx) key_j \<Longrightarrow>
      is_occupied (slots (levels tbl1 ! li) ! idx) \<Longrightarrow> li < 2 \<Longrightarrow>
      idx < capacity (levels tbl1 ! li) \<Longrightarrow> False" for li idx
    by (cases "li = 0"; cases "idx = 29")
      (auto simp: levels_tbl1 less_2_cases_iff key_matches_def is_occupied_def cstr_def
        key_k_def key_j_def empty_slot_def subarray_init_def)
  then show ?thesis by (auto simp: holds_key_def levels_tbl1)
qed

lemma not_holds_tbl0: "\<not> holds_key tbl0 k"
proof -
  have "is_occupied (slots (levels tbl0 ! li) ! idx) \<Longrightarrow> li < 2 \<Longrightarrow>
      idx < capacity (levels tbl0 ! li) \<Longrightarrow> False" for li idx
    by (cases "li = 0")
      (auto simp: levels_tbl0 less_2_cases_iff is_occupied_def empty_slot_def subarray_init_def)
  then show ?thesis by (auto simp: holds_key_def levels_tbl0)
qed

lemma insert_tbl1_j: "eht_insert env0 0 tbl1 key_j [4, 5] = Some tbl2"
proof -
  have "insert_probe (levels tbl1 ! 0) 12638374117532437866 12638390610206861031 4 0 = Some 10"
    by (simp add: insert_probe.simps probe_idx_def levels_tbl1 empty_slot_def)
  then have "insert_levels env0 tbl1 (Some key_j) (Some [4, 5]) 2 0 = Some tbl2"
    by (simp add: insert_levels_step levels_tbl1 hash_j0 probe_budget_def tbl2_def env0_def)
  moreover have "cstr key_j = key_j" by (simp add: cstr_def key_j_def)
  moreover have "total_ts tbl1 = 0"
    by (simp add: total_ts_def tbl1_def tbl0_def init_list_def subarray_init_def empty_slot_def)
  ultimately show ?thesis
    using find_tbl1_j [of env0]
    by (simp add: eht_insert_def Let_def levels_tbl1 env0_def numeral_2_eq_2 [symmetric])
qed

subsection \<open>Tables for the search\<close>

lemma sample_slots [simp]:
  "state slot_J = SLOT_OCCUPIED" "state slot_j = SLOT_OCCUPIED" "state slot_k = SLOT_OCCUPIED"
  "state tomb_slot = SLOT_TOMBSTONE" "state empty_slot = SLOT_EMPTY"
  by (simp_all add: slot_J_def slot_j_def slot_k_def tomb_slot_def empty_slot_def)











lemma matches_sample [simp]:
  "key_matches slot_j key_j" "\<not> key_matches slot_J key_j" "\<not> key_matches slot_k key_j"
  by (simp_all add: key_matches_def slot_j_def slot_J_def slot_k_def cstr_def key_j_def
      key_J_def key_k_def)













section \<open>The claims\<close>

text \<open>
  Claim C1. In every reachable table, if \<^verbatim>\<open>eht_insert(t, k, v, value_len)\<close> returns
  success, then \<^verbatim>\<open>eht_get(t, k)\<close> right after it reports the key as found, with the
  length \<open>value_len\<close> and the bytes of \<open>v\<close>, and \<^verbatim>\<open>eht_contains(t, k)\<close> returns 1.
  The floating-point budget enters through one hypothesis: filling one more slot of a
  level does not lower its probe budget.
\<close>

theorem insert_then_get:
  assumes "budget_mono env" "reachable env t" "eht_insert env fuel t k v = Some t'"
  shows "eht_get env t' k = Some (Some v, length v) \<and> eht_contains env t' k = 1"
proof -
  have inv: "table_inv env t" by (rule reachable_inv [OF assms(1,2)])
  from eht_insert_correct [OF inv assms(1,3)]
  have inv': "table_inv env t'"
    and "(Some (cstr k), Some v, length v) \<in> set (collect t')"
    by simp_all
  with contents_iff [OF inv', of k] have "contents t' k = Some (Some v, length v)" by simp
  then show ?thesis
    by (simp add: eht_get_contents [OF inv'] eht_contains_contents [OF inv'])
qed

theorem insert_then_get_witness:
  "eht_get env0 tbl1 key_k = Some (Some [1, 2, 3], 3) \<and> eht_contains env0 tbl1 key_k = 1"
  using insert_then_get [OF budget_mono_env0 reach_tbl0 insert_tbl0_env0] by simp

text \<open>
  Claim C2. In a reachable table whose live count has reached the load threshold
  \<^verbatim>\<open>(size_t)(total_capacity * max_load)\<close> (and so in any table whose count exceeds
  \<open>max_load * total_capacity\<close>), inserting a key that the table does not hold returns (as
  soon as every level with a slot is probed at least once), and whenever it returns, the
  total capacity is at least twice the prior one and every key that was retrievable
  before is retrievable after, with the same value.
\<close>

theorem load_rebuild:
  assumes "budget_mono env" "reachable env t" "\<not> holds_key t k"
    and "load_limit env (eht_capacity t) \<le> eht_len t"
  shows "(budget_pos env \<longrightarrow> (\<exists>fuel t'. eht_insert env fuel t k v = Some t')) \<and>
         (\<forall>fuel t'. eht_insert env fuel t k v = Some t' \<longrightarrow>
            2 * eht_capacity t \<le> eht_capacity t' \<and>
            (\<forall>k'. eht_get env t k' \<noteq> None \<longrightarrow> eht_get env t' k' = eht_get env t k'))"
proof (intro conjI impI allI)
  assume "budget_pos env"
  then show "\<exists>fuel t'. eht_insert env fuel t k v = Some t'"
    by (rule eht_insert_total [OF _ reachable_basic [OF assms(2)]])
next
  fix fuel t'
  assume res: "eht_insert env fuel t k v = Some t'"
  have inv: "table_inv env t" by (rule reachable_inv [OF assms(1,2)])
  from assms(3) holds_key_iff [OF inv] have nf: "\<not> 0 \<le> level_idx (find_key env t k)" by simp
  from eht_insert_new [OF inv assms(1) nf res] assms(4)
  have inv': "table_inv env t'"
    and s: "set (collect t') = insert (Some (cstr k), Some v, length v) (set (collect t))"
    and cap: "total_capacity t * 2 \<le> total_capacity t'"
    by (simp_all add: eht_capacity_def eht_len_def)
  from cap show "2 * eht_capacity t \<le> eht_capacity t'" by (simp add: eht_capacity_def)
  fix k'
  assume "eht_get env t k' \<noteq> None"
  then obtain x where x: "contents t k' = Some x" by (auto simp: eht_get_contents [OF inv])
  with contents_iff [OF inv] s have "(Some (cstr k'), x) \<in> set (collect t')" by simp
  with contents_iff [OF inv'] have "contents t' k' = Some x" by simp
  with x show "eht_get env t' k' = eht_get env t k'"
    by (simp add: eht_get_contents [OF inv] eht_get_contents [OF inv'])
qed

theorem load_rebuild_witness:
  "\<exists>fuel t'. eht_insert env1 fuel tbl1 key_j [4, 5] = Some t' \<and>
      128 \<le> eht_capacity t' \<and> eht_get env1 t' key_k = Some (Some [1, 2, 3], 3)"
proof -
  have load: "load_limit env1 (eht_capacity tbl1) \<le> eht_len tbl1"
    by (simp add: env1_def eht_capacity_def eht_len_def levels_tbl1)
  note th = load_rebuild [OF budget_mono_env1 reach_tbl1_env1 not_holds_tbl1_j load, of "[4, 5]"]
  from th budget_pos_env1 obtain fuel t'
    where res: "eht_insert env1 fuel tbl1 key_j [4, 5] = Some t'" by blast
  have get: "eht_get env1 tbl1 key_k = Some (Some [1, 2, 3], 3)"
    using find_tbl1_k [of env1]
    by (simp add: eht_get_def Let_def slot_at_def slot29_tbl1 env1_def env0_def)
  from th res have "2 * eht_capacity tbl1 \<le> eht_capacity t'"
    and "eht_get env1 tbl1 key_k \<noteq> None \<longrightarrow> eht_get env1 t' key_k = eht_get env1 tbl1 key_k"
    by blast+
  with get res show ?thesis by (auto simp: eht_capacity_def levels_tbl1)
qed

text \<open>
  Claim C3, as stated: over \<^verbatim>\<open>eht_insert(t, k, v1)\<close> and \<^verbatim>\<open>eht_insert(t, k, v2)\<close> the
  length grows by exactly 1, for every table and key. It fails when the table already
  holds the key: after \<^verbatim>\<open>eht_create(64)\<close> and a first insert of \<^verbatim>\<open>"k"\<close>, two more
  inserts of \<^verbatim>\<open>"k"\<close> overwrite in place, and the length stays 1.
\<close>

theorem insert_twice_counterexample:
  "eht_create 64 = Some tbl0 \<and> eht_insert env0 0 tbl0 key_k [1, 2, 3] = Some tbl1 \<and>
   eht_insert env0 0 tbl1 key_k [7] = Some tbl1a \<and>
   eht_insert env0 0 tbl1a key_k [8] = Some tbl1b \<and>
   eht_len tbl1 = 1 \<and> eht_len tbl1b = 1 \<and> eht_len tbl1b \<noteq> eht_len tbl1 + 1"
  by (simp add: create64 insert_tbl0_env0 insert_tbl1_k insert_tbl1a_k)
    (simp add: eht_len_def levels_tbl1 tbl1b_def set_slot_def levels_tbl1a)

text \<open>
  Claim C3, amended. In every reachable table, after \<^verbatim>\<open>eht_insert(t, k, v1)\<close> and
  \<^verbatim>\<open>eht_insert(t, k, v2)\<close>, \<^verbatim>\<open>eht_get(t, k)\<close> returns \<open>v2\<close>; the length has grown by
  exactly 1 if the table did not hold \<open>k\<close> before and is unchanged if it did; the second
  insert overwrites the value of the slot that \<^verbatim>\<open>find_key\<close> returns and changes nothing
  else: no count, tombstones or capacity of a level, no count of the table.
\<close>

theorem insert_twice:
  assumes "budget_mono env" "reachable env t"
  shows "(budget_pos env \<longrightarrow>
            (\<exists>f1 t1 f2 t2. eht_insert env f1 t k v1 = Some t1 \<and>
                            eht_insert env f2 t1 k v2 = Some t2)) \<and>
         (\<forall>f1 t1 f2 t2.
            eht_insert env f1 t k v1 = Some t1 \<longrightarrow> eht_insert env f2 t1 k v2 = Some t2 \<longrightarrow>
            eht_get env t2 k = Some (Some v2, length v2) \<and>
            eht_len t2 = (if holds_key t k then eht_len t else eht_len t + 1) \<and>
            (\<exists>li idx. find_key env t1 k = \<lparr>level_idx = int li, slot_idx = idx\<rparr> \<and>
               t2 = set_slot t1 li idx
                      ((slots (levels t1 ! li) ! idx)\<lparr>val := Some v2, value_len := length v2\<rparr>)) \<and>
            tcount t2 = tcount t1 \<and>
            map count (levels t2) = map count (levels t1) \<and>
            map tombstones (levels t2) = map tombstones (levels t1))"
proof (intro conjI impI allI)
  assume pos: "budget_pos env"
  from eht_insert_total [OF pos reachable_basic [OF assms(2)]] obtain f1 t1
    where t1: "eht_insert env f1 t k v1 = Some t1" by blast
  from eht_insert_total [OF pos reachable_basic [OF r_insert [OF assms(2) t1]]] obtain f2 t2
    where "eht_insert env f2 t1 k v2 = Some t2" by blast
  with t1 show "\<exists>f1 t1 f2 t2. eht_insert env f1 t k v1 = Some t1 \<and>
      eht_insert env f2 t1 k v2 = Some t2" by blast
next
  fix f1 t1 f2 t2
  assume i1: "eht_insert env f1 t k v1 = Some t1" and i2: "eht_insert env f2 t1 k v2 = Some t2"
  have inv: "table_inv env t" by (rule reachable_inv [OF assms(1,2)])
  from eht_insert_correct [OF inv assms(1) i1]
  have inv1: "table_inv env t1" and "(Some (cstr k), Some v1, length v1) \<in> set (collect t1)"
    by simp_all
  then have "Some (cstr k) \<in> fst ` set (collect t1)" by force
  from find_complete [OF inv1 this] have found: "0 \<le> level_idx (find_key env t1 k)" .
  from eht_insert_found [OF inv1 found i2] obtain li idx where
    fr: "find_key env t1 k = \<lparr>level_idx = int li, slot_idx = idx\<rparr>"
    and li: "li < length (levels t1)"
    and t2: "t2 = set_slot t1 li idx
        ((slots (levels t1 ! li) ! idx)\<lparr>val := Some v2, value_len := length v2\<rparr>)"
    and inv2: "table_inv env t2"
    and s2: "set (collect t2) = insert (Some (cstr k), Some v2, length v2)
        {e \<in> set (collect t1). fst e \<noteq> Some (cstr k)}"
    by blast
  from s2 contents_iff [OF inv2, of k] have "contents t2 k = Some (Some v2, length v2)" by simp
  then show "eht_get env t2 k = Some (Some v2, length v2)"
    by (simp add: eht_get_contents [OF inv2])
  from set_slot_counters [OF li] t2
  show c: "tcount t2 = tcount t1" and "map count (levels t2) = map count (levels t1)"
    and "map tombstones (levels t2) = map tombstones (levels t1)"
    by simp_all
  from eht_insert_len [OF inv assms(1) i1] c
  show "eht_len t2 = (if holds_key t k then eht_len t else eht_len t + 1)"
    by (simp add: eht_len_def)
  from fr t2 show "\<exists>li idx. find_key env t1 k = \<lparr>level_idx = int li, slot_idx = idx\<rparr> \<and>
      t2 = set_slot t1 li idx
        ((slots (levels t1 ! li) ! idx)\<lparr>val := Some v2, value_len := length v2\<rparr>)" by blast
qed

theorem insert_twice_witness:
  "eht_insert env0 0 tbl0 key_k [1, 2, 3] = Some tbl1 \<and>
   eht_insert env0 0 tbl1 key_k [7] = Some tbl1a \<and>
   eht_get env0 tbl1a key_k = Some (Some [7], 1) \<and> eht_len tbl1a = eht_len tbl0 + 1 \<and>
   tcount tbl1a = tcount tbl1"
proof -
  note th = insert_twice [OF budget_mono_env0 reach_tbl0, of key_k "[1, 2, 3]" "[7]"]
  from th insert_tbl0_env0 insert_tbl1_k
  have "eht_get env0 tbl1a key_k = Some (Some [7], length [7::byte])"
    and "eht_len tbl1a = (if holds_key tbl0 key_k then eht_len tbl0 else eht_len tbl0 + 1)"
    and "tcount tbl1a = tcount tbl1"
    by blast+
  with not_holds_tbl0 insert_tbl0_env0 insert_tbl1_k show ?thesis by simp
qed

text \<open>
  Claim C4. In a reachable table that does not hold \<open>k\<close>, \<^verbatim>\<open>eht_insert(t, k, v)\<close>
  returns (as soon as every level with a slot is probed at least once), and after it
  \<^verbatim>\<open>eht_delete(t, k)\<close> returns 1, \<^verbatim>\<open>eht_get(t, k)\<close> reports not found,
  \<^verbatim>\<open>eht_contains(t, k)\<close> returns 0 and \<^verbatim>\<open>eht_len(t)\<close> is what it was before the insert.
  \<^verbatim>\<open>eht_delete\<close> itself, on a reachable table and any key, returns 1 exactly when the
  table holds the key, and then the slot that \<^verbatim>\<open>find_key\<close> returns has lost key and value
  and is a tombstone, the count of its level is one less, the tombstones of its level one
  more and the count of the table one less (\<open>delete_at\<close>).
\<close>

theorem insert_then_delete:
  assumes "budget_mono env" "reachable env t" "\<not> holds_key t k"
  shows "(budget_pos env \<longrightarrow> (\<exists>fuel t1. eht_insert env fuel t k v = Some t1)) \<and>
         (\<forall>fuel t1. eht_insert env fuel t k v = Some t1 \<longrightarrow>
            fst (eht_delete env t1 k) = 1 \<and>
            eht_get env (snd (eht_delete env t1 k)) k = None \<and>
            eht_contains env (snd (eht_delete env t1 k)) k = 0 \<and>
            eht_len (snd (eht_delete env t1 k)) = eht_len t) \<and>
         (\<forall>k'. fst (eht_delete env t k') = (if holds_key t k' then 1 else 0)) \<and>
         (\<forall>k'. holds_key t k' \<longrightarrow>
            (\<exists>li idx. find_key env t k' = \<lparr>level_idx = int li, slot_idx = idx\<rparr> \<and>
               0 < count (levels t ! li) \<and> 0 < tcount t \<and>
               snd (eht_delete env t k') = delete_at t li idx))"
proof (intro conjI impI allI)
  assume "budget_pos env"
  then show "\<exists>fuel t1. eht_insert env fuel t k v = Some t1"
    by (rule eht_insert_total [OF _ reachable_basic [OF assms(2)]])
next
  fix fuel t1
  assume res: "eht_insert env fuel t k v = Some t1"
  have inv: "table_inv env t" by (rule reachable_inv [OF assms(1,2)])
  let ?K = "Some (cstr k)"
  from assms(3) holds_key_iff [OF inv] have nf: "\<not> 0 \<le> level_idx (find_key env t k)" by simp
  from eht_insert_new [OF inv assms(1) nf res]
  have inv1: "table_inv env t1" and fresh: "?K \<notin> fst ` set (collect t)"
    and s1: "set (collect t1) = insert (?K, Some v, length v) (set (collect t))"
    by simp_all
  from s1 have "?K \<in> fst ` set (collect t1)" by force
  from find_complete [OF inv1 this] have found: "0 \<le> level_idx (find_key env t1 k)" .
  let ?t2 = "snd (eht_delete env t1 k)"
  from eht_delete_found [OF inv1 found]
  have r: "fst (eht_delete env t1 k) = 1" and inv2: "table_inv env ?t2"
    and s2: "set (collect ?t2) = {e \<in> set (collect t1). fst e \<noteq> ?K}"
    by auto
  from fresh have "{e \<in> set (collect t1). fst e \<noteq> ?K} = set (collect t)"
    unfolding s1 by force
  with s2 have s: "set (collect ?t2) = set (collect t)" by simp
  with fresh have none: "contents ?t2 k = None" by (simp add: contents_None_iff)
  from r show "fst (eht_delete env t1 k) = 1" .
  from none show "eht_get env ?t2 k = None" by (simp add: eht_get_contents [OF inv2])
  from none show "eht_contains env ?t2 k = 0" by (simp add: eht_contains_contents [OF inv2])
  from s show "eht_len ?t2 = eht_len t"
    by (simp add: eht_len_def tcount_card [OF inv] tcount_card [OF inv2])
next
  fix k'
  have inv: "table_inv env t" by (rule reachable_inv [OF assms(1,2)])
  show "fst (eht_delete env t k') = (if holds_key t k' then 1 else 0)"
    by (simp add: eht_delete_def Let_def holds_key_iff [OF inv] not_le)
next
  fix k'
  assume h: "holds_key t k'"
  have inv: "table_inv env t" by (rule reachable_inv [OF assms(1,2)])
  from h holds_key_iff [OF inv] have "0 \<le> level_idx (find_key env t k')" by simp
  from eht_delete_found [OF inv this]
  show "\<exists>li idx. find_key env t k' = \<lparr>level_idx = int li, slot_idx = idx\<rparr> \<and>
      0 < count (levels t ! li) \<and> 0 < tcount t \<and>
      snd (eht_delete env t k') = delete_at t li idx"
    unfolding delete_at_def by fastforce
qed

theorem insert_then_delete_witness:
  "eht_insert env0 0 tbl1 key_j [4, 5] = Some tbl2 \<and>
   fst (eht_delete env0 tbl2 key_j) = 1 \<and>
   eht_get env0 (snd (eht_delete env0 tbl2 key_j)) key_j = None \<and>
   eht_len (snd (eht_delete env0 tbl2 key_j)) = eht_len tbl1 \<and>
   eht_delete env0 tbl1 key_k = (1, delete_at tbl1 0 29)"
proof -
  note th = insert_then_delete [OF budget_mono_env0 reach_tbl1_env0 not_holds_tbl1_j, of "[4, 5]"]
  from th insert_tbl1_j
  have "fst (eht_delete env0 tbl2 key_j) = 1"
    and "eht_get env0 (snd (eht_delete env0 tbl2 key_j)) key_j = None"
    and "eht_len (snd (eht_delete env0 tbl2 key_j)) = eht_len tbl1"
    by blast+
  moreover from th holds_tbl1_k obtain li idx where
    "find_key env0 tbl1 key_k = \<lparr>level_idx = int li, slot_idx = idx\<rparr>"
    "snd (eht_delete env0 tbl1 key_k) = delete_at tbl1 li idx" by blast
  with find_tbl1_k [of env0] have "snd (eht_delete env0 tbl1 key_k) = delete_at tbl1 0 29"
    by (simp add: env0_def)
  moreover from th holds_tbl1_k have "fst (eht_delete env0 tbl1 key_k) = 1" by simp
  ultimately show ?thesis using insert_tbl1_j by (simp add: prod_eq_iff)
qed



text \<open>
  Claim C6. In every table reachable from \<^verbatim>\<open>eht_create\<close> by insertions, deletions,
  look-ups and rebuilds, the table's count is the sum of the levels' counts and its
  total capacity is the sum of the levels' capacities.
\<close>

theorem counters_sum:
  assumes "reachable env t"
  shows "tcount t = sum_list (map count (levels t)) \<and>
         total_capacity t = sum_list (map capacity (levels t))"
proof -
  from reachable_basic [OF assms]
  have "tcount t = sum_list (map count (levels t))"
    and "layout_spec (min_level_size t) (total_capacity t) = Some (map capacity (levels t))"
    by (simp_all add: basic_inv_def)
  with layout_spec_sum show ?thesis by auto
qed

theorem counters_sum_witness:
  "tcount tbl1 = sum_list (map count (levels tbl1)) \<and>
   total_capacity tbl1 = sum_list (map capacity (levels tbl1)) \<and> tcount tbl1 = 1"
  using counters_sum [OF reach_tbl1_env0] by (simp add: levels_tbl1)

text \<open>
  Claim C7, as stated: every non-final level has capacity at least \<open>min_level_size + 1\<close>.
  It fails for \<^verbatim>\<open>eht_create(65)\<close>: the levels have capacities 32, 16 and 17, and the
  second of the two non-final levels has exactly \<open>min_level_size = 16\<close> slots.
\<close>

theorem layout_counterexample:
  "eht_create 65 = Some tbl65 \<and> 1 < num_levels tbl65 - 1 \<and>
   \<not> min_level_size tbl65 + 1 \<le> capacity (levels tbl65 ! 1)"
  by (simp add: create65) (simp add: tbl65_def init_list_def subarray_init_def)

text \<open>
  Claim C7, amended. In every reachable table each non-final level has capacity at least
  \<open>min_level_size\<close> (a level of \<open>remaining div 2\<close> slots is emitted only while
  \<open>remaining > 2 * min_level_size\<close>), and the final level has capacity at most
  \<open>2 * min_level_size\<close>.
\<close>

theorem layout_bounds:
  assumes "reachable env t"
  shows "0 < num_levels t \<and>
         (\<forall>i < num_levels t - 1. min_level_size t \<le> capacity (levels t ! i)) \<and>
         capacity (levels t ! (num_levels t - 1)) \<le> 2 * min_level_size t"
proof -
  let ?caps = "map capacity (levels t)"
  from reachable_basic [OF assms]
  have nl: "num_levels t = length (levels t)"
    and lay: "layout_spec (min_level_size t) (total_capacity t) = Some ?caps"
    by (simp_all add: basic_inv_def)
  from layout_spec_ne [OF lay] have ne: "levels t \<noteq> []" by simp
  from layout_spec_bounds [OF lay]
  have la: "last ?caps \<le> 2 * min_level_size t"
    and bl: "\<forall>c \<in> set (butlast ?caps). min_level_size t \<le> c" by simp_all
  have "min_level_size t \<le> capacity (levels t ! i)" if "i < num_levels t - 1" for i
  proof -
    from that nl have "butlast ?caps ! i \<in> set (butlast ?caps)" by (intro nth_mem) simp
    moreover from that nl have "butlast ?caps ! i = capacity (levels t ! i)"
      by (simp add: nth_butlast)
    ultimately show ?thesis using bl by auto
  qed
  moreover from ne la nl have "capacity (levels t ! (num_levels t - 1)) \<le> 2 * min_level_size t"
    by (simp add: last_conv_nth)
  ultimately show ?thesis using ne nl by simp
qed

theorem layout_bounds_witness:
  "min_level_size tbl65 \<le> capacity (levels tbl65 ! 1) \<and>
   capacity (levels tbl65 ! 2) \<le> 2 * min_level_size tbl65"
proof -
  have "num_levels tbl65 = 3" by (simp add: tbl65_def)
  with layout_bounds [OF reach_tbl65 [of env0]] show ?thesis by simp
qed

text \<open>
  Claim C8. With a positive minimum level size, \<^verbatim>\<open>build_levels\<close> returns, and the
  capacities of the levels it builds are exactly the list that the loop of the
  specification emits (while \<open>remaining > 2 * min_level_size\<close> a level of
  \<open>remaining div 2\<close>, then the remainder); there are \<open>num_levels\<close> of them and they
  sum to the requested capacity.
\<close>

theorem build_levels_spec:
  assumes "0 < min_level_size t"
  shows "\<exists>t' caps. build_levels t c = Some t' \<and>
           layout_spec (min_level_size t) c = Some caps \<and>
           map capacity (levels t') = caps \<and>
           num_levels t' = length caps \<and>
           sum_list (map capacity (levels t')) = c"
proof -
  from layout_spec_total [OF assms] obtain caps
    where caps: "layout_spec (min_level_size t) c = Some caps" ..
  from build_levels_layout [OF caps] layout_spec_sum [OF caps] caps
  show ?thesis by simp
qed

theorem build_levels_spec_witness:
  "\<exists>t'. build_levels \<lparr>total_capacity = 65, tcount = 0, num_levels = 0,
                          min_level_size = 16, levels = []\<rparr> 65 = Some t' \<and>
        map capacity (levels t') = [32, 16, 17] \<and> num_levels t' = 3 \<and>
        sum_list (map capacity (levels t')) = 65"
proof -
  have "layout_spec 16 65 = Some [32, 16, 17]" by (simp add: layout_spec.simps)
  with build_levels_spec [of "\<lparr>total_capacity = 65, tcount = 0, num_levels = 0,
      min_level_size = 16, levels = []\<rparr>" 65]
  show ?thesis by auto
qed

text \<open>
  Claim C9. The dual hash is, in 64-bit wrap-around arithmetic, the salted FNV-1a fold over
  the key bytes before the first NUL, with the salts \<open>L * 0x9E3779B97F4A7C15 + 0xA1\<close>
  and \<open>L * 0x517CC1B727220A95 + 0xB2\<close>; the second hash is ORed with 1 and therefore
  odd; the pair is a function of the C string and the level index alone (bytes after the
  first NUL do not matter).
\<close>

theorem dual_hash_spec:
  "dual_hash k lv =
     (fnv1a_spec (cstr k) (word_of_int lv * 0x9E3779B97F4A7C15 + 0xA1),
      fnv1a_spec (cstr k) (word_of_int lv * 0x517CC1B727220A95 + 0xB2) OR 1)
   \<and> odd (snd (dual_hash k lv))
   \<and> dual_hash (cstr k) lv = dual_hash k lv"
  by (simp add: dual_hash_def fnv1a_salted_def fnv1a_spec_def fnv1a_loop_foldl Let_def
      even_or_iff)

text \<open>
  Claim C10. In every reachable table, if no occupied slot holds the key, then
  \<^verbatim>\<open>eht_delete(t, k)\<close> returns 0 and the table is exactly as before: every slot, every
  level's count and tombstones, the table's count, total capacity and number of levels.
\<close>

theorem delete_absent:
  assumes "reachable env t" "\<not> holds_key t k"
  shows "eht_delete env t k = (0, t)"
proof (rule eht_delete_absent, rule notI)
  assume "0 \<le> level_idx (find_key env t k)"
  from find_sound_basic [OF reachable_basic [OF assms(1)] this] reachable_basic [OF assms(1)]
  have "holds_key t k" by (auto simp: holds_key_def basic_inv_def)
  with assms(2) show False ..
qed

theorem delete_absent_witness:
  "\<not> holds_key tbl1 key_j \<and> eht_delete env0 tbl1 key_j = (0, tbl1)"
proof -
  have "key_matches (slots (levels tbl1 ! li) ! idx) key_j \<Longrightarrow>
      is_occupied (slots (levels tbl1 ! li) ! idx) \<Longrightarrow> li < 2 \<Longrightarrow>
      idx < capacity (levels tbl1 ! li) \<Longrightarrow> False" for li idx
    by (cases "li = 0"; cases "idx = 29")
      (auto simp: levels_tbl1 less_2_cases_iff key_matches_def is_occupied_def cstr_def
        key_k_def key_j_def empty_slot_def subarray_init_def)
  then have "\<not> holds_key tbl1 key_j" by (auto simp: holds_key_def levels_tbl1)
  with delete_absent [OF reach_tbl1_env0] show ?thesis by simp
qed

end
